theory Spec2Isabelle
  imports Main
begin

section \<open>Speculative sampling with a key/value cache\<close>

text \<open>
  A shallow embedding of the three functions of
  \<^verbatim>\<open>notebooks/speculative-sampling/speculative-sampling.ipynb\<close>:
  \<^verbatim>\<open>autoregressive_sampling_with_pkv\<close>, \<^verbatim>\<open>update_state\<close> and
  \<^verbatim>\<open>speculative_sampling_with_pkv\<close>. The batch dimension of every array is 1 in
  the notebook, so an array of shape \<^verbatim>\<open>[1, n]\<close> is a list of length \<open>n\<close>. Token ids
  are integers; lengths, position ids, \<open>K\<close> and \<open>N\<close> are natural numbers (a negative
  \<open>N\<close> behaves as \<open>0\<close>: no loop is entered). A Python exception is the value
  \<open>Inl e\<close>, a normal return \<open>Inr v\<close>.
\<close>

subsection \<open>Data\<close>

type_synonym token = int

text \<open>
  One position of a layer's key/value tensor (axis 2 of \<^verbatim>\<open>state.state\<close>). The
  keys and values stored there were computed from the token fed at that position and the
  position id given with it, so the pair stands for them.
\<close>

type_synonym kv = "token \<times> nat"

datatype py_error = InferenceError | IndexError | UnboundLocalError | ValueError

text \<open>
  Where an exception of a routine was raised, as its traceback tells: in the lines before
  the \<^verbatim>\<open>while\<close> loop, or in the loop.
\<close>

datatype stage = Before_loop | In_loop

type_synonym failure = "stage \<times> py_error"

text \<open>
  A compiled model: the number of stateful layers, and the greedy choice
  (\<^verbatim>\<open>np.argmax\<close> of the logits) the network makes at a position from the keys and
  values of all layers up to and including that position. The network itself is a parameter
  of everything below.
\<close>

record model =
  n_layers :: nat
  greedy :: "kv list list \<Rightarrow> token"

text \<open>
  An inference request: \<^verbatim>\<open>query_state()\<close> (one key/value tensor per layer),
  \<^verbatim>\<open>results["logits"]\<close> after \<^verbatim>\<open>argmax\<close> along the vocabulary axis (one
  token per input position), and the log of the inputs of every \<^verbatim>\<open>infer\<close> call made
  on the request so far (not in the source: it is what the statements about calls observe).
\<close>

record infer_request =
  compiled :: model
  query_state :: "kv list list"
  logits :: "token list"
  infer_log :: "(token list \<times> nat list \<times> nat list) list"

text \<open>The tokenizer's output for the prompt.\<close>

record encoding =
  input_ids :: "token list"
  attention_mask :: "nat list"

subsection \<open>The inference service\<close>

definition create_infer_request :: "model \<Rightarrow> infer_request" where
  "create_infer_request m =
     \<lparr>compiled = m, query_state = replicate (n_layers m) [], logits = [], infer_log = []\<rparr>"

text \<open>
  Modelled from the spec: \<^verbatim>\<open>request.infer((input_ids, attention_mask, position_ids, beam_idx))\<close>
  of the inference runtime, a library that is not part of the repository. The spec gives its
  contract, \<^verbatim>\<open>infer(input_ids, attention_mask, position_ids, cache_state) -> (logits, updated_cache_state)\<close>:
  the cache grows by one entry per input token (the notebook says so too: after the request
  the keys and values have length \<^verbatim>\<open>seq_len + K\<close>), the prediction at an input position
  is what the model predicts having seen the sequence up to and including that position, and
  a shape mismatch is a fatal inference failure. Here the shapes match when there is one
  position id per input token and the attention mask covers the cached positions plus the
  input. The values of the mask are not modelled, only its length: the mask is a row of ones
  in every call when the prompt's mask is, as it is for a single prompt. On a prompt whose
  mask has a zero the two routines pass different masks (the naive one keeps the prompt's
  mask and appends ones, the speculative one replaces it by ones), so a statement that
  compares the two routines assumes a prompt mask of ones. The beam index is the constant
  \<^verbatim>\<open>np.array([0])\<close> in every call and is left out.
\<close>

definition infer :: "infer_request \<Rightarrow> token list \<Rightarrow> nat list \<Rightarrow> nat list \<Rightarrow> py_error + infer_request" where
  "infer r ids am pos =
     (if length pos = length ids \<and>
         list_all (\<lambda>st. length am = length st + length ids) (query_state r)
      then Inr (r\<lparr>query_state := map (\<lambda>st. st @ zip ids pos) (query_state r),
                  logits := map (\<lambda>i. greedy (compiled r)
                                   (map (\<lambda>st. st @ take (Suc i) (zip ids pos)) (query_state r)))
                              [0..<length ids],
                  infer_log := infer_log r @ [(ids, am, pos)]\<rparr>)
      else Inl InferenceError)"

text \<open>\<^verbatim>\<open>np.argmax(request.results["logits"][:, -1])\<close>: index \<open>-1\<close> of an empty axis raises.\<close>

definition last_logit :: "infer_request \<Rightarrow> py_error + token" where
  "last_logit r = (if logits r = [] then Inl IndexError else Inr (last (logits r)))"

subsection \<open>Naive decoding: \<^verbatim>\<open>autoregressive_sampling_with_pkv\<close>\<close>

text \<open>The local variables of the function that live across loop iterations.\<close>

record ar_state =
  ar_request :: infer_request
  ar_attention_mask :: "nat list"
  ar_next_token :: token
  ar_all_tokens :: "token list"
  ar_seq_len :: nat

text \<open>
  Everything before the \<^verbatim>\<open>while\<close>: the whole encoded prompt is fed at once. On an
  empty prompt \<^verbatim>\<open>np.arange(0, seq_len).reshape([-1, seq_len])\<close> raises, since no length
  fits the \<open>-1\<close> of the shape \<^verbatim>\<open>[-1, 0]\<close>.
\<close>

definition ar_prime :: "encoding \<Rightarrow> model \<Rightarrow> py_error + ar_state" where
  "ar_prime inp m =
     (let seq_len = length (input_ids inp)
      in if seq_len = 0 then Inl ValueError
         else
           (let position_ids = [0..<seq_len]
            in case infer (create_infer_request m) (input_ids inp) (attention_mask inp)
                      position_ids of
                 Inl e \<Rightarrow> Inl e
               | Inr request \<Rightarrow>
                   (case last_logit request of
                      Inl e \<Rightarrow> Inl e
                    | Inr next_token \<Rightarrow>
                        Inr \<lparr>ar_request = request, ar_attention_mask = attention_mask inp,
                             ar_next_token = next_token,
                             ar_all_tokens = input_ids inp @ [next_token],
                             ar_seq_len = seq_len\<rparr>)))"

text \<open>One pass through the body of the \<^verbatim>\<open>while\<close>.\<close>

definition ar_body :: "ar_state \<Rightarrow> py_error + ar_state" where
  "ar_body s =
     (let ids = [ar_next_token s];
          am = ar_attention_mask s @ [1];
          position_ids = [length am]
      in case infer (ar_request s) ids am position_ids of
           Inl e \<Rightarrow> Inl e
         | Inr request \<Rightarrow>
             (case last_logit request of
                Inl e \<Rightarrow> Inl e
              | Inr next_token \<Rightarrow>
                  Inr (s\<lparr>ar_request := request, ar_attention_mask := am,
                         ar_next_token := next_token,
                         ar_all_tokens := ar_all_tokens s @ [next_token],
                         ar_seq_len := ar_seq_len s + 1\<rparr>)))"

text \<open>The \<^verbatim>\<open>while seq_len < N\<close> loop. It ends because every pass adds one to \<open>seq_len\<close>.\<close>

function ar_loop :: "nat \<Rightarrow> ar_state \<Rightarrow> py_error + ar_state" where
  "ar_loop N s =
     (if ar_seq_len s < N
      then (case ar_body s of Inl e \<Rightarrow> Inl e | Inr s' \<Rightarrow> ar_loop N s')
      else Inr s)"
  by pat_completeness auto
termination
  by (relation "measure (\<lambda>(N, s). N - ar_seq_len s)")
     (auto simp: ar_body_def Let_def split: sum.splits)

declare ar_loop.simps [simp del]

text \<open>The whole routine, up to the \<^verbatim>\<open>return\<close>, and what it returns.\<close>

definition ar_run :: "encoding \<Rightarrow> model \<Rightarrow> nat \<Rightarrow> failure + ar_state" where
  "ar_run inp m N =
     (case ar_prime inp m of
        Inl e \<Rightarrow> Inl (Before_loop, e)
      | Inr s \<Rightarrow> (case ar_loop N s of Inl e \<Rightarrow> Inl (In_loop, e) | Inr s' \<Rightarrow> Inr s'))"

definition autoregressive_sampling_with_pkv :: "encoding \<Rightarrow> model \<Rightarrow> nat \<Rightarrow> failure + token list" where
  "autoregressive_sampling_with_pkv inp m N =
     (case ar_run inp m N of Inl f \<Rightarrow> Inl f | Inr s \<Rightarrow> Inr (ar_all_tokens s))"

subsection \<open>Trimming the cache: \<^verbatim>\<open>update_state\<close>\<close>

text \<open>
  For every state of the request: nothing when \<^verbatim>\<open>seq_len >= old_seq_len\<close>, otherwise the
  slice \<^verbatim>\<open>[:, :, :seq_len]\<close> of the tensor.
\<close>

definition trim_layer :: "nat \<Rightarrow> kv list \<Rightarrow> kv list" where
  "trim_layer seq_len st = (if seq_len \<ge> length st then st else take seq_len st)"

definition update_state :: "infer_request \<Rightarrow> nat \<Rightarrow> infer_request" where
  "update_state request seq_len =
     request\<lparr>query_state := map (trim_layer seq_len) (query_state request)\<rparr>"

subsection \<open>Speculative decoding: \<^verbatim>\<open>speculative_sampling_with_pkv\<close>\<close>

text \<open>
  The local variables of the function. \<open>disagree_idx\<close> is unbound (\<open>None\<close>) until the
  comparison loop binds it. \<open>next_token\<close> and \<open>next_tokens\<close> are assigned in every
  iteration before they are read, so the values they are given before the loop play no part.
  \<open>iterations\<close> counts the passes through the \<^verbatim>\<open>while\<close> body (not in the
  source: it is what the statements about the number of iterations observe).
\<close>

record spec_state =
  draft_request :: infer_request
  main_request :: infer_request
  attn_mask :: "nat list"
  first_token :: token
  next_token :: token
  accum_draft_tokens :: "token list"
  next_tokens :: "token list"
  disagree_idx :: "nat option"
  seq_len :: nat
  all_tokens :: "token list"
  iterations :: nat

text \<open>
  Everything before the \<^verbatim>\<open>while\<close>: both models run once on the whole prompt. On an
  empty prompt the \<^verbatim>\<open>reshape([-1, seq_len])\<close> of the position ids raises, as in the
  naive routine.
\<close>

definition spec_prime :: "encoding \<Rightarrow> model \<Rightarrow> model \<Rightarrow> py_error + spec_state" where
  "spec_prime inp draft_model main_model =
     (let n = length (input_ids inp)
      in if n = 0 then Inl ValueError
         else
           (let position_ids = [0..<n]
            in case infer (create_infer_request draft_model) (input_ids inp) (attention_mask inp)
                      position_ids of
                 Inl e \<Rightarrow> Inl e
               | Inr dr \<Rightarrow>
                   (case infer (create_infer_request main_model) (input_ids inp)
                           (attention_mask inp) position_ids of
                      Inl e \<Rightarrow> Inl e
                    | Inr mr \<Rightarrow>
                        (case last_logit mr of
                           Inl e \<Rightarrow> Inl e
                         | Inr t \<Rightarrow>
                             Inr \<lparr>draft_request = dr, main_request = mr,
                                  attn_mask = attention_mask inp,
                                  first_token = t, next_token = t, accum_draft_tokens = [],
                                  next_tokens = [], disagree_idx = None, seq_len = n,
                                  all_tokens = input_ids inp @ [t], iterations = 0\<rparr>))))"

text \<open>
  \<^verbatim>\<open>for i in range(K)\<close>: the draft model is fed one token at a time, the first argument
  counting the passes still to run.
\<close>

fun draft_loop :: "nat \<Rightarrow> spec_state \<Rightarrow> py_error + spec_state" where
  "draft_loop 0 s = Inr s"
| "draft_loop (Suc k) s =
     (let ids = [next_token s];
          am = attn_mask s @ [1];
          position_ids = [length am]
      in case infer (draft_request s) ids am position_ids of
           Inl e \<Rightarrow> Inl e
         | Inr dr \<Rightarrow>
             (case last_logit dr of
                Inl e \<Rightarrow> Inl e
              | Inr t \<Rightarrow>
                  draft_loop k (s\<lparr>draft_request := dr, attn_mask := am, next_token := t,
                                   accum_draft_tokens := accum_draft_tokens s @ [t]\<rparr>)))"

definition draft_phase :: "nat \<Rightarrow> spec_state \<Rightarrow> py_error + spec_state" where
  "draft_phase K s = draft_loop K (s\<lparr>next_token := first_token s\<rparr>)"

text \<open>
  The batched pass of the main model: the first token and all draft tokens but the last
  (\<^verbatim>\<open>accum_draft_tokens[:-1]\<close>), a mask of ones, and position ids
  \<^verbatim>\<open>np.arange(seq_len, seq_len + K)\<close>.
\<close>

definition verify_phase :: "nat \<Rightarrow> spec_state \<Rightarrow> py_error + spec_state" where
  "verify_phase K s =
     (let ids = first_token s # butlast (accum_draft_tokens s);
          am = replicate (seq_len s + K) 1;
          position_ids = [seq_len s..<seq_len s + K]
      in case infer (main_request s) ids am position_ids of
           Inl e \<Rightarrow> Inl e
         | Inr mr \<Rightarrow> Inr (s\<lparr>main_request := mr, attn_mask := am, next_tokens := logits mr\<rparr>))"

text \<open>
  \<^verbatim>\<open>for disagree_idx, (t1, t2) in enumerate(zip(...)): if t1 != t2: break\<close>. The first
  argument is the binding of \<open>disagree_idx\<close> so far, the second the index of the head of
  the list. Every pair binds the variable before it is compared, so the variable keeps the
  last index when no pair differs and its old binding when there is no pair at all.
\<close>

fun scan_disagree :: "nat option \<Rightarrow> nat \<Rightarrow> (token \<times> token) list \<Rightarrow> nat option" where
  "scan_disagree bound i [] = bound"
| "scan_disagree bound i ((t1, t2) # ps) =
     (if t1 \<noteq> t2 then Some i else scan_disagree (Some i) (Suc i) ps)"

text \<open>
  The lines from the comparison loop to \<^verbatim>\<open>seq_len += disagree_idx + 1\<close>. Reading an
  unbound \<open>disagree_idx\<close> raises, and so does \<^verbatim>\<open>next_tokens[disagree_idx]\<close> out of
  range.
\<close>

definition accept_phase :: "spec_state \<Rightarrow> py_error + spec_state" where
  "accept_phase s =
     (case scan_disagree (disagree_idx s) 0 (zip (accum_draft_tokens s) (next_tokens s)) of
        None \<Rightarrow> Inl UnboundLocalError
      | Some d \<Rightarrow>
          if d < length (next_tokens s)
          then Inr (s\<lparr>disagree_idx := Some d,
                      first_token := next_tokens s ! d,
                      all_tokens := all_tokens s @ take (d + 1) (next_tokens s),
                      seq_len := seq_len s + (d + 1)\<rparr>)
          else Inl IndexError)"

text \<open>The two \<^verbatim>\<open>update_state\<close> calls and the two assignments that end the body.\<close>

definition trim_phase :: "spec_state \<Rightarrow> spec_state" where
  "trim_phase s =
     s\<lparr>draft_request := update_state (draft_request s) (seq_len s),
       main_request := update_state (main_request s) (seq_len s),
       attn_mask := replicate (seq_len s) 1,
       accum_draft_tokens := [],
       iterations := iterations s + 1\<rparr>"

text \<open>One pass through the body of the \<^verbatim>\<open>while\<close>.\<close>

definition spec_body :: "nat \<Rightarrow> spec_state \<Rightarrow> py_error + spec_state" where
  "spec_body K s =
     (case draft_phase K s of
        Inl e \<Rightarrow> Inl e
      | Inr s1 \<Rightarrow>
          (case verify_phase K s1 of
             Inl e \<Rightarrow> Inl e
           | Inr s2 \<Rightarrow>
               (case accept_phase s2 of
                  Inl e \<Rightarrow> Inl e
                | Inr s3 \<Rightarrow> Inr (trim_phase s3))))"

text \<open>
  The \<^verbatim>\<open>while seq_len < N\<close> loop. It ends because a pass that does not fail adds
  \<open>disagree_idx + 1\<close> to \<open>seq_len\<close> and changes it nowhere else.
\<close>

function spec_loop :: "nat \<Rightarrow> nat \<Rightarrow> spec_state \<Rightarrow> py_error + spec_state" where
  "spec_loop K N s =
     (if seq_len s < N
      then (case spec_body K s of Inl e \<Rightarrow> Inl e | Inr s' \<Rightarrow> spec_loop K N s')
      else Inr s)"
  by pat_completeness auto
termination
proof (relation "measure (\<lambda>(K, N, s). N - seq_len s)")
  show "wf (measure (\<lambda>(K, N, s). N - seq_len s))" by simp
next
  fix K N :: nat and s s' :: spec_state
  assume lt: "seq_len s < N" and body: "spec_body K s = Inr s'"
  have draft: "draft_loop k t = Inr t' \<Longrightarrow> seq_len t' = seq_len t" for k t t'
    by (induction k arbitrary: t) (auto simp: Let_def split: sum.splits)
  have verify: "verify_phase K t = Inr t' \<Longrightarrow> seq_len t' = seq_len t" for t t'
    by (auto simp: verify_phase_def Let_def split: sum.splits)
  have accept: "accept_phase t = Inr t' \<Longrightarrow> seq_len t < seq_len t'" for t t'
    by (auto simp: accept_phase_def split: option.splits if_splits)
  from body have "seq_len s < seq_len s'"
    by (auto simp: spec_body_def draft_phase_def trim_phase_def split: sum.splits
        dest!: draft verify accept)
  with lt show "((K, N, s'), (K, N, s)) \<in> measure (\<lambda>(K, N, s). N - seq_len s)"
    by simp
qed

declare spec_loop.simps [simp del]

text \<open>The whole routine, up to the last two lines.\<close>

definition spec_run :: "encoding \<Rightarrow> model \<Rightarrow> model \<Rightarrow> nat \<Rightarrow> nat \<Rightarrow> failure + spec_state" where
  "spec_run inp draft_model main_model K N =
     (case spec_prime inp draft_model main_model of
        Inl e \<Rightarrow> Inl (Before_loop, e)
      | Inr s \<Rightarrow>
          (case spec_loop K N s of Inl e \<Rightarrow> Inl (In_loop, e) | Inr s' \<Rightarrow> Inr s'))"

text \<open>The result: \<^verbatim>\<open>all_tokens.extend(accum_draft_tokens); return all_tokens\<close>.\<close>

definition speculative_sampling_with_pkv ::
  "encoding \<Rightarrow> model \<Rightarrow> model \<Rightarrow> nat \<Rightarrow> nat \<Rightarrow> failure + token list" where
  "speculative_sampling_with_pkv inp draft_model main_model K N =
     (case spec_run inp draft_model main_model K N of
        Inl f \<Rightarrow> Inl f
      | Inr s \<Rightarrow> Inr (all_tokens s @ accum_draft_tokens s))"

section \<open>What the statements observe\<close>

subsection \<open>Calls of the models\<close>

text \<open>The number of \<^verbatim>\<open>infer\<close> calls made on a request, and on the main model by each routine.\<close>

definition forward_passes :: "infer_request \<Rightarrow> nat" where
  "forward_passes r = length (infer_log r)"

definition ar_forward_passes :: "encoding \<Rightarrow> model \<Rightarrow> nat \<Rightarrow> failure + nat" where
  "ar_forward_passes inp m N =
     (case ar_run inp m N of Inl f \<Rightarrow> Inl f | Inr s \<Rightarrow> Inr (forward_passes (ar_request s)))"

definition main_forward_passes ::
  "encoding \<Rightarrow> model \<Rightarrow> model \<Rightarrow> nat \<Rightarrow> nat \<Rightarrow> failure + nat" where
  "main_forward_passes inp dm mm K N =
     (case spec_run inp dm mm K N of
        Inl f \<Rightarrow> Inl f
      | Inr s \<Rightarrow> Inr (forward_passes (main_request s)))"

text \<open>The body of the loop up to the two \<^verbatim>\<open>update_state\<close> calls.\<close>

definition before_trim :: "nat \<Rightarrow> spec_state \<Rightarrow> py_error + spec_state" where
  "before_trim K s =
     (case draft_phase K s of
        Inl e \<Rightarrow> Inl e
      | Inr s1 \<Rightarrow> (case verify_phase K s1 of Inl e \<Rightarrow> Inl e | Inr s2 \<Rightarrow> accept_phase s2))"

text \<open>The draft tokens of an iteration, and the input of its pass of the main model.\<close>

definition drafted :: "nat \<Rightarrow> spec_state \<Rightarrow> py_error + token list" where
  "drafted K s =
     (case draft_phase K s of Inl e \<Rightarrow> Inl e | Inr s1 \<Rightarrow> Inr (accum_draft_tokens s1))"

definition verifier_input :: "nat \<Rightarrow> spec_state \<Rightarrow> py_error + token list \<times> nat list \<times> nat list" where
  "verifier_input K s =
     (case spec_body K s of
        Inl e \<Rightarrow> Inl e
      | Inr s' \<Rightarrow>
          if infer_log (main_request s') = [] then Inl IndexError
          else Inr (last (infer_log (main_request s'))))"

subsection \<open>Cache lengths\<close>

text \<open>The logical cache length of every layer of a request is \<open>n\<close>.\<close>

definition caches_at :: "nat \<Rightarrow> infer_request \<Rightarrow> bool" where
  "caches_at n r = list_all (\<lambda>st. length st = n) (query_state r)"

text \<open>What holds of the local variables at the head of the \<^verbatim>\<open>while\<close> loop.\<close>

definition loop_inv :: "spec_state \<Rightarrow> bool" where
  "loop_inv s \<longleftrightarrow>
     caches_at (seq_len s) (draft_request s) \<and> caches_at (seq_len s) (main_request s) \<and>
     length (attn_mask s) = seq_len s \<and> accum_draft_tokens s = [] \<and>
     length (all_tokens s) = seq_len s + 1"

text \<open>
  The states in which a run reaches the head of the \<^verbatim>\<open>while\<close> loop: after priming,
  and after every pass through the body that started below \<open>N\<close>.
\<close>

inductive loop_head :: "encoding \<Rightarrow> model \<Rightarrow> model \<Rightarrow> nat \<Rightarrow> nat \<Rightarrow> spec_state \<Rightarrow> bool"
  for inp draft_model main_model K N where
  primed: "spec_prime inp draft_model main_model = Inr s \<Longrightarrow>
     loop_head inp draft_model main_model K N s"
| pass: "loop_head inp draft_model main_model K N s \<Longrightarrow> seq_len s < N \<Longrightarrow>
     spec_body K s = Inr s' \<Longrightarrow> loop_head inp draft_model main_model K N s'"

code_pred loop_head .

subsection \<open>What a model has seen\<close>

text \<open>
  The cache of a model that was fed the tokens \<open>toks\<close> with the position ids \<open>pos\<close>,
  and the sequences in which every token from index \<open>L\<close> on is the model's greedy choice
  after all tokens before it, fed with the position ids \<open>0, 1, 2, ...\<close>.
\<close>

definition cache_of :: "model \<Rightarrow> token list \<Rightarrow> nat list \<Rightarrow> kv list list" where
  "cache_of m toks pos = replicate (n_layers m) (zip toks pos)"

definition greedy_from :: "model \<Rightarrow> nat \<Rightarrow> token list \<Rightarrow> bool" where
  "greedy_from m L xs =
     list_all (\<lambda>j. xs ! j = greedy m (cache_of m (take j xs) [0..<j])) [L..<length xs]"

text \<open>
  At the head of the speculative loop the cache of the main model holds all tokens but the
  last, at the positions \<open>0, 1, 2, ...\<close>; the last token is \<open>first_token\<close>; and the
  tokens after the prompt are the main model's greedy choices.
\<close>

definition main_inv :: "model \<Rightarrow> token list \<Rightarrow> spec_state \<Rightarrow> bool" where
  "main_inv m prompt s \<longleftrightarrow>
     compiled (main_request s) = m \<and>
     query_state (main_request s) = cache_of m (butlast (all_tokens s)) [0..<seq_len s] \<and>
     first_token s = last (all_tokens s) \<and>
     take (length prompt) (all_tokens s) = prompt \<and> length prompt \<le> seq_len s \<and>
     greedy_from m (length prompt) (all_tokens s)"

text \<open>
  The position ids that \<^verbatim>\<open>autoregressive_sampling_with_pkv\<close> gives to the first \<open>n\<close>
  tokens of a sequence whose prompt has \<open>L\<close> tokens: \<open>0, ..., L - 1\<close> for the prompt,
  then \<^verbatim>\<open>attention_mask.shape[1]\<close> after the mask has grown by one, that is
  \<open>L + 1, L + 2, ...\<close>.
\<close>

definition ar_positions :: "nat \<Rightarrow> nat \<Rightarrow> nat list" where
  "ar_positions L n = [0..<L] @ [L + 1..<n + 1]"

definition ar_follows :: "model \<Rightarrow> nat \<Rightarrow> token list \<Rightarrow> bool" where
  "ar_follows m L xs =
     list_all (\<lambda>j. xs ! j = greedy m (cache_of m (take j xs) (ar_positions L j))) [L..<length xs]"

text \<open>The same at the head of the naive loop, with the naive routine's position ids.\<close>

definition ar_inv :: "model \<Rightarrow> token list \<Rightarrow> ar_state \<Rightarrow> bool" where
  "ar_inv m prompt s \<longleftrightarrow>
     compiled (ar_request s) = m \<and>
     query_state (ar_request s) =
       cache_of m (butlast (ar_all_tokens s)) (ar_positions (length prompt) (ar_seq_len s)) \<and>
     ar_next_token s = last (ar_all_tokens s) \<and>
     length (ar_all_tokens s) = ar_seq_len s + 1 \<and>
     length (ar_attention_mask s) = ar_seq_len s \<and>
     take (length prompt) (ar_all_tokens s) = prompt \<and> length prompt \<le> ar_seq_len s \<and>
     ar_follows m (length prompt) (ar_all_tokens s)"

text \<open>A model whose greedy choice depends on the cached tokens only, not on their position ids.\<close>

definition position_blind :: "model \<Rightarrow> bool" where
  "position_blind m \<longleftrightarrow>
     (\<forall>c c'. map (map fst) c = map (map fst) c' \<longrightarrow> greedy m c = greedy m c')"

section \<open>Example inputs\<close>

text \<open>
  Two small networks and a prompt, used to instantiate the statements below. The greedy choice
  of \<open>toy_main\<close> and of \<open>toy_draft\<close> looks at the cached tokens only; that of
  \<open>pos_main\<close> looks at the position ids only.
\<close>

definition toy_main :: model where
  "toy_main = \<lparr>n_layers = 2,
     greedy = (\<lambda>c. (sum_list (map fst (concat c)) + int (length (concat c))) mod 5)\<rparr>"

definition toy_draft :: model where
  "toy_draft = \<lparr>n_layers = 1,
     greedy = (\<lambda>c. min 2 ((2 * sum_list (map fst (concat c)) + 2 * int (length (concat c))) mod 5))\<rparr>"

definition pos_main :: model where
  "pos_main = \<lparr>n_layers = 1, greedy = (\<lambda>c. int (sum_list (map snd (concat c))))\<rparr>"

definition toy_input :: encoding where
  "toy_input = \<lparr>input_ids = [1, 2], attention_mask = [1, 1]\<rparr>"

text \<open>
  A request whose two layers hold three and one cached positions, and the local variables
  of the example run with \<open>K = 3\<close> between the acceptance and the trimming of its first
  iteration (\<open>before_trim_toy\<close>), where \<open>seq_len_old = 2\<close> and \<open>disagree_idx = 1\<close>.
\<close>

definition toy_request :: infer_request where
  "toy_request = \<lparr>compiled = toy_main, query_state = [[(1, 0), (2, 1), (0, 2)], [(1, 0)]],
     logits = [], infer_log = []\<rparr>"

definition toy_untrimmed :: spec_state where
  "toy_untrimmed =
     \<lparr>draft_request = \<lparr>compiled = toy_draft,
          query_state = [[(1, 0), (2, 1), (0, 3), (2, 4), (2, 5)]], logits = [2],
          infer_log = [([1, 2], [1, 1], [0, 1]), ([0], [1, 1, 1], [3]),
                       ([2], [1, 1, 1, 1], [4]), ([2], [1, 1, 1, 1, 1], [5])]\<rparr>,
      main_request = \<lparr>compiled = toy_main,
          query_state = [[(1, 0), (2, 1), (0, 2), (2, 3), (2, 4)],
                         [(1, 0), (2, 1), (0, 2), (2, 3), (2, 4)]],
          logits = [2, 3, 4],
          infer_log = [([1, 2], [1, 1], [0, 1]), ([0, 2, 2], [1, 1, 1, 1, 1], [2, 3, 4])]\<rparr>,
      attn_mask = [1, 1, 1, 1, 1], first_token = 3, next_token = 2,
      accum_draft_tokens = [2, 2, 2], next_tokens = [2, 3, 4], disagree_idx = Some 1,
      seq_len = 4, all_tokens = [1, 2, 0, 2, 3], iterations = 0\<rparr>"

text \<open>The local variables of the example run when it reaches the loop.\<close>

definition toy_primed :: spec_state where
  "toy_primed =
     \<lparr>draft_request = \<lparr>compiled = toy_draft, query_state = [[(1, 0), (2, 1)]],
          logits = [2, 0], infer_log = [([1, 2], [1, 1], [0, 1])]\<rparr>,
      main_request = \<lparr>compiled = toy_main, query_state = [[(1, 0), (2, 1)], [(1, 0), (2, 1)]],
          logits = [4, 0], infer_log = [([1, 2], [1, 1], [0, 1])]\<rparr>,
      attn_mask = [1, 1], first_token = 0, next_token = 0,
      accum_draft_tokens = [], next_tokens = [], disagree_idx = None,
      seq_len = 2, all_tokens = [1, 2, 0], iterations = 0\<rparr>"

section \<open>Lemmas\<close>

subsection \<open>Trimming\<close>

lemma trim_layer_take: "trim_layer n st = take n st"
  by (simp add: trim_layer_def)

lemma caches_at_update_state:
  "caches_at m r \<Longrightarrow> n \<le> m \<Longrightarrow> caches_at n (update_state r n)"
  by (auto simp: caches_at_def update_state_def list_all_iff trim_layer_take)

subsection \<open>The comparison loop\<close>

lemma scan_disagree_Some:
  "ps \<noteq> [] \<Longrightarrow> \<exists>d. scan_disagree b i ps = Some (i + d) \<and> d < length ps \<and>
     (\<forall>j<d. fst (ps ! j) = snd (ps ! j)) \<and> (fst (ps ! d) \<noteq> snd (ps ! d) \<or> d = length ps - 1)"
proof (induction ps arbitrary: b i)
  case Nil
  then show ?case by simp
next
  case (Cons p ps)
  obtain t1 t2 where p: "p = (t1, t2)" by (cases p)
  show ?case
  proof (cases "t1 \<noteq> t2")
    case True
    then show ?thesis using p by (intro exI[of _ 0]) simp
  next
    case eq: False
    show ?thesis
    proof (cases ps)
      case Nil
      then show ?thesis using p eq by (intro exI[of _ 0]) simp
    next
      case (Cons q qs)
      then have "ps \<noteq> []" by simp
      from Cons.IH[OF this, of "Some i" "Suc i"] obtain d where
        d: "scan_disagree (Some i) (Suc i) ps = Some (Suc i + d)" "d < length ps"
           "\<forall>j<d. fst (ps ! j) = snd (ps ! j)" "fst (ps ! d) \<noteq> snd (ps ! d) \<or> d = length ps - 1"
        by blast
      have "\<forall>j<Suc d. fst ((p # ps) ! j) = snd ((p # ps) ! j)"
        using d(3) p eq by (auto simp: less_Suc_eq_0_disj)
      then show ?thesis using d p eq
        by (intro exI[of _ "Suc d"]) auto
    qed
  qed
qed

subsection \<open>The phases of one iteration\<close>

lemma infer_ok:
  assumes "length pos = length ids" "caches_at n r" "length am = n + length ids"
  shows "infer r ids am pos =
     Inr (r\<lparr>query_state := map (\<lambda>st. st @ zip ids pos) (query_state r),
            logits := map (\<lambda>i. greedy (compiled r)
                             (map (\<lambda>st. st @ take (Suc i) (zip ids pos)) (query_state r)))
                        [0..<length ids],
            infer_log := infer_log r @ [(ids, am, pos)]\<rparr>)"
  using assms by (auto simp: infer_def caches_at_def list_all_iff)

lemma caches_at_grow:
  "caches_at n r \<Longrightarrow> length ids = length pos \<Longrightarrow>
   caches_at (n + length ids)
     (r\<lparr>query_state := map (\<lambda>st. st @ zip ids pos) (query_state r), logits := l, infer_log := g\<rparr>)"
  by (auto simp: caches_at_def list_all_iff)

lemma infer_log_Inr:
  "infer r ids am pos = Inr r' \<Longrightarrow> infer_log r' = infer_log r @ [(ids, am, pos)]"
  by (auto simp: infer_def split: if_splits)

lemma draft_loop_ok:
  assumes "caches_at (length (attn_mask s)) (draft_request s)"
  shows "\<exists>s'. draft_loop k s = Inr s' \<and>
     caches_at (length (attn_mask s) + k) (draft_request s') \<and>
     length (attn_mask s') = length (attn_mask s) + k \<and>
     length (accum_draft_tokens s') = length (accum_draft_tokens s) + k \<and>
     compiled (draft_request s') = compiled (draft_request s) \<and>
     length (infer_log (draft_request s')) = length (infer_log (draft_request s)) + k \<and>
     main_request s' = main_request s \<and> first_token s' = first_token s \<and>
     seq_len s' = seq_len s \<and> all_tokens s' = all_tokens s \<and>
     disagree_idx s' = disagree_idx s \<and> iterations s' = iterations s"
  using assms
proof (induction k arbitrary: s)
  case 0
  then show ?case by simp
next
  case (Suc k)
  let ?am = "attn_mask s @ [1]"
  let ?ids = "[next_token s]"
  let ?pos = "[length ?am]"
  define dr where "dr = (draft_request s)\<lparr>query_state := map (\<lambda>st. st @ zip ?ids ?pos) (query_state (draft_request s)),
            logits := map (\<lambda>i. greedy (compiled (draft_request s))
                             (map (\<lambda>st. st @ take (Suc i) (zip ?ids ?pos)) (query_state (draft_request s))))
                        [0..<length ?ids],
            infer_log := infer_log (draft_request s) @ [(?ids, ?am, ?pos)]\<rparr>"
  have inf: "infer (draft_request s) ?ids ?am ?pos = Inr dr"
    unfolding dr_def by (rule infer_ok[OF _ Suc.prems]) simp_all
  have c: "caches_at (length (attn_mask s) + 1) dr"
    unfolding dr_def using caches_at_grow[OF Suc.prems, of ?ids ?pos] by simp
  obtain t where t: "last_logit dr = Inr t"
    by (simp add: last_logit_def dr_def)
  define s1 where "s1 = s\<lparr>draft_request := dr, attn_mask := ?am, next_token := t,
                                   accum_draft_tokens := accum_draft_tokens s @ [t]\<rparr>"
  have "caches_at (length (attn_mask s1)) (draft_request s1)"
    using c by (simp add: s1_def)
  from Suc.IH[OF this] obtain s' where s': "draft_loop k s1 = Inr s'"
     "caches_at (length (attn_mask s1) + k) (draft_request s')"
     "length (attn_mask s') = length (attn_mask s1) + k"
     "length (accum_draft_tokens s') = length (accum_draft_tokens s1) + k"
     "compiled (draft_request s') = compiled (draft_request s1)"
     "length (infer_log (draft_request s')) = length (infer_log (draft_request s1)) + k"
     "main_request s' = main_request s1" "first_token s' = first_token s1"
     "seq_len s' = seq_len s1" "all_tokens s' = all_tokens s1"
     "disagree_idx s' = disagree_idx s1" "iterations s' = iterations s1"
    by blast
  have "draft_loop (Suc k) s = Inr s'"
    using inf t s'(1) by (simp add: Let_def s1_def)
  then show ?case using s'(2-) by (simp add: s1_def dr_def)
qed

lemma verify_phase_ok:
  assumes "caches_at (seq_len s) (main_request s)" "length (accum_draft_tokens s) = K" "1 \<le> K"
  shows "\<exists>mr. infer (main_request s) (first_token s # butlast (accum_draft_tokens s))
                 (replicate (seq_len s + K) 1) [seq_len s..<seq_len s + K] = Inr mr \<and>
     verify_phase K s = Inr (s\<lparr>main_request := mr, attn_mask := replicate (seq_len s + K) 1,
                               next_tokens := logits mr\<rparr>) \<and>
     length (logits mr) = K \<and> caches_at (seq_len s + K) mr"
proof -
  let ?ids = "first_token s # butlast (accum_draft_tokens s)"
  let ?pos = "[seq_len s..<seq_len s + K]"
  let ?am = "replicate (seq_len s + K) (1::nat)"
  have len: "length ?ids = K" using assms(2,3) by simp
  have inf: "infer (main_request s) ?ids ?am ?pos = Inr ((main_request s)\<lparr>query_state := map (\<lambda>st. st @ zip ?ids ?pos) (query_state (main_request s)),
            logits := map (\<lambda>i. greedy (compiled (main_request s))
                             (map (\<lambda>st. st @ take (Suc i) (zip ?ids ?pos)) (query_state (main_request s))))
                        [0..<length ?ids],
            infer_log := infer_log (main_request s) @ [(?ids, ?am, ?pos)]\<rparr>)"
    (is "_ = Inr ?mr")
    by (rule infer_ok[OF _ assms(1)]) (use assms(2,3) in simp_all)
  have c: "caches_at (seq_len s + K) ?mr"
    using caches_at_grow[OF assms(1), of ?ids ?pos] len by simp
  have "length (logits ?mr) = K" using len by simp
  moreover have "verify_phase K s = Inr (s\<lparr>main_request := ?mr, attn_mask := ?am, next_tokens := logits ?mr\<rparr>)"
    unfolding verify_phase_def Let_def inf by simp
  ultimately show ?thesis using inf c by (intro exI[of _ ?mr]) simp
qed

lemma accept_phase_ok:
  assumes "length (accum_draft_tokens s) = K" "length (next_tokens s) = K" "1 \<le> K"
  shows "\<exists>d<K. (\<forall>j<d. accum_draft_tokens s ! j = next_tokens s ! j) \<and>
     (accum_draft_tokens s ! d \<noteq> next_tokens s ! d \<or> d = K - 1) \<and>
     accept_phase s = Inr (s\<lparr>disagree_idx := Some d,
                      first_token := next_tokens s ! d,
                      all_tokens := all_tokens s @ take (d + 1) (next_tokens s),
                      seq_len := seq_len s + (d + 1)\<rparr>)"
proof -
  let ?ps = "zip (accum_draft_tokens s) (next_tokens s)"
  have ne: "?ps \<noteq> []" and len: "length ?ps = K" using assms by (auto simp: zip_eq_Nil_iff)
  from scan_disagree_Some[OF ne, of "disagree_idx s" 0] obtain d where
    d: "scan_disagree (disagree_idx s) 0 ?ps = Some d" "d < K"
       "\<forall>j<d. fst (?ps ! j) = snd (?ps ! j)" "fst (?ps ! d) \<noteq> snd (?ps ! d) \<or> d = K - 1"
    using len by auto
  have "\<forall>j<d. accum_draft_tokens s ! j = next_tokens s ! j"
    using d(2,3) assms by auto
  moreover have "accum_draft_tokens s ! d \<noteq> next_tokens s ! d \<or> d = K - 1"
    using d(2,4) assms by auto
  moreover have "accept_phase s = Inr (s\<lparr>disagree_idx := Some d,
                      first_token := next_tokens s ! d,
                      all_tokens := all_tokens s @ take (d + 1) (next_tokens s),
                      seq_len := seq_len s + (d + 1)\<rparr>)"
    using d(1,2) assms(2) by (simp add: accept_phase_def)
  ultimately show ?thesis using d(2) by blast
qed

lemma spec_body_ok:
  assumes "loop_inv s" "1 \<le> K"
  shows "\<exists>s1 mr d. draft_phase K s = Inr s1 \<and> length (accum_draft_tokens s1) = K \<and>
     caches_at (seq_len s + K) (draft_request s1) \<and>
     compiled (draft_request s1) = compiled (draft_request s) \<and>
     length (infer_log (draft_request s1)) = length (infer_log (draft_request s)) + K \<and>
     infer (main_request s) (first_token s # butlast (accum_draft_tokens s1))
           (replicate (seq_len s + K) 1) [seq_len s..<seq_len s + K] = Inr mr \<and>
     verify_phase K s1 = Inr (s1\<lparr>main_request := mr, attn_mask := replicate (seq_len s + K) 1,
                                next_tokens := logits mr\<rparr>) \<and>
     main_request s1 = main_request s \<and>
     length (logits mr) = K \<and> caches_at (seq_len s + K) mr \<and>
     d < K \<and> (\<forall>j<d. accum_draft_tokens s1 ! j = logits mr ! j) \<and>
     (accum_draft_tokens s1 ! d \<noteq> logits mr ! d \<or> d = K - 1) \<and>
     spec_body K s = Inr (s1\<lparr>draft_request := update_state (draft_request s1) (seq_len s + (d + 1)),
                              main_request := update_state mr (seq_len s + (d + 1)),
                              attn_mask := replicate (seq_len s + (d + 1)) 1,
                              first_token := logits mr ! d,
                              accum_draft_tokens := [],
                              next_tokens := logits mr,
                              disagree_idx := Some d,
                              seq_len := seq_len s + (d + 1),
                              all_tokens := all_tokens s @ take (d + 1) (logits mr),
                              iterations := iterations s + 1\<rparr>)"
proof -
  let ?s0 = "s\<lparr>next_token := first_token s\<rparr>"
  have "caches_at (length (attn_mask ?s0)) (draft_request ?s0)"
    using assms(1) by (simp add: loop_inv_def)
  from draft_loop_ok[OF this, of K] obtain s1 where s1: "draft_phase K s = Inr s1"
     "caches_at (seq_len s + K) (draft_request s1)"
     "length (accum_draft_tokens s1) = K"
     "compiled (draft_request s1) = compiled (draft_request s)"
     "length (infer_log (draft_request s1)) = length (infer_log (draft_request s)) + K"
     "main_request s1 = main_request s" "first_token s1 = first_token s"
     "seq_len s1 = seq_len s" "all_tokens s1 = all_tokens s"
     "disagree_idx s1 = disagree_idx s" "iterations s1 = iterations s"
    using assms(1) by (auto simp: draft_phase_def loop_inv_def)
  have "caches_at (seq_len s1) (main_request s1)"
    using assms(1) s1 by (simp add: loop_inv_def)
  from verify_phase_ok[OF this s1(3) assms(2)] obtain mr where mr:
    "infer (main_request s) (first_token s # butlast (accum_draft_tokens s1))
                 (replicate (seq_len s + K) 1) [seq_len s..<seq_len s + K] = Inr mr"
    "verify_phase K s1 = Inr (s1\<lparr>main_request := mr, attn_mask := replicate (seq_len s + K) 1,
                               next_tokens := logits mr\<rparr>)" (is "_ = Inr ?s2")
    "length (logits mr) = K" "caches_at (seq_len s + K) mr"
    using s1 by auto
  have v: "verify_phase K s1 = Inr ?s2" by (rule mr(2))
  have "length (accum_draft_tokens ?s2) = K" "length (next_tokens ?s2) = K"
    using s1(3) mr(3) by simp_all
  from accept_phase_ok[OF this assms(2)] obtain d where d: "d < K"
    "\<forall>j<d. accum_draft_tokens s1 ! j = logits mr ! j"
    "accum_draft_tokens s1 ! d \<noteq> logits mr ! d \<or> d = K - 1"
    "accept_phase ?s2 = Inr (?s2\<lparr>disagree_idx := Some d,
                      first_token := next_tokens ?s2 ! d,
                      all_tokens := all_tokens ?s2 @ take (d + 1) (next_tokens ?s2),
                      seq_len := seq_len ?s2 + (d + 1)\<rparr>)"
    by auto
  have "spec_body K s = Inr (s1\<lparr>draft_request := update_state (draft_request s1) (seq_len s + (d + 1)),
                              main_request := update_state mr (seq_len s + (d + 1)),
                              attn_mask := replicate (seq_len s + (d + 1)) 1,
                              first_token := logits mr ! d,
                              accum_draft_tokens := [],
                              next_tokens := logits mr,
                              disagree_idx := Some d,
                              seq_len := seq_len s + (d + 1),
                              all_tokens := all_tokens s @ take (d + 1) (logits mr),
                              iterations := iterations s + 1\<rparr>)"
    unfolding spec_body_def s1(1) sum.case mr(2) d(4)
    by (simp add: trim_phase_def s1)
  with s1 mr(1,3,4) v d(1-3) show ?thesis by blast
qed

subsection \<open>What the main model has seen\<close>

lemma cache_of_append:
  "length toks = length pos \<Longrightarrow>
   map (\<lambda>st. st @ zip ids ps) (cache_of m toks pos) = cache_of m (toks @ ids) (pos @ ps)"
  by (simp add: cache_of_def)

lemma cache_of_take: "map (take k) (cache_of m toks pos) = cache_of m (take k toks) (take k pos)"
  by (simp add: cache_of_def take_zip)

lemma greedy_fromI:
  "(\<And>j. L \<le> j \<Longrightarrow> j < length xs \<Longrightarrow> xs ! j = greedy m (cache_of m (take j xs) [0..<j]))
   \<Longrightarrow> greedy_from m L xs"
  by (simp add: greedy_from_def list_all_iff)

lemma greedy_fromD:
  "greedy_from m L xs \<Longrightarrow> L \<le> j \<Longrightarrow> j < length xs \<Longrightarrow>
   xs ! j = greedy m (cache_of m (take j xs) [0..<j])"
  by (simp add: greedy_from_def list_all_iff)

text \<open>The predictions of one batched pass over a cache that holds \<open>toks\<close>.\<close>

lemma infer_cache_of:
  assumes "query_state r = cache_of m toks [0..<n]" "compiled r = m" "length toks = n"
    "length ids = k" "length am = n + k"
  shows "\<exists>r'. infer r ids am [n..<n + k] = Inr r' \<and> compiled r' = m \<and>
     query_state r' = cache_of m (toks @ ids) [0..<n + k] \<and>
     length (logits r') = k \<and>
     (\<forall>i<k. logits r' ! i = greedy m (cache_of m (toks @ take (Suc i) ids) [0..<n + Suc i])) \<and>
     infer_log r' = infer_log r @ [(ids, am, [n..<n + k])]"
proof -
  let ?pos = "[n..<n + k]"
  have c: "caches_at n r"
    using assms(1,3) by (simp add: caches_at_def cache_of_def list_all_iff)
  have inf: "infer r ids am ?pos =
     Inr (r\<lparr>query_state := map (\<lambda>st. st @ zip ids ?pos) (query_state r),
            logits := map (\<lambda>i. greedy (compiled r)
                             (map (\<lambda>st. st @ take (Suc i) (zip ids ?pos)) (query_state r)))
                        [0..<length ids],
            infer_log := infer_log r @ [(ids, am, ?pos)]\<rparr>)" (is "_ = Inr ?r'")
    by (rule infer_ok[OF _ c]) (use assms(4,5) in simp_all)
  have up: "[0..<n] @ [n..<n + k] = [0..<n + k]"
    by (metis le_add1 upt_add_eq_append zero_le)
  have "map (\<lambda>st. st @ zip ids ?pos) (query_state r) = cache_of m (toks @ ids) [0..<n + k]"
    unfolding assms(1) up[symmetric] by (rule cache_of_append) (simp add: assms(3))
  then have q: "query_state ?r' = cache_of m (toks @ ids) [0..<n + k]"
    by simp
  have l: "logits ?r' ! i = greedy m (cache_of m (toks @ take (Suc i) ids) [0..<n + Suc i])"
    if "i < k" for i
  proof -
    have tu: "take (Suc i) ?pos = [n..<n + Suc i]"
      using that by (simp add: take_upt)
    have t: "take (Suc i) (zip ids ?pos) = zip (take (Suc i) ids) [n..<n + Suc i]"
      by (simp only: take_zip tu)
    have up': "[0..<n + Suc i] = [0..<n] @ [n..<n + Suc i]"
      by (metis le_add1 upt_add_eq_append zero_le)
    have "map (\<lambda>st. st @ take (Suc i) (zip ids ?pos)) (query_state r) =
       cache_of m (toks @ take (Suc i) ids) [0..<n + Suc i]"
      unfolding t assms(1) up' by (rule cache_of_append) (simp add: assms(3))
    then show ?thesis using that assms(2,4) by simp
  qed
  show ?thesis using inf q l assms(2,4) by (intro exI[of _ ?r']) simp
qed

lemma loop_inv_spec_body:
  assumes "loop_inv s" "1 \<le> K" "spec_body K s = Inr s'"
  shows "loop_inv s' \<and> seq_len s < seq_len s' \<and> seq_len s' \<le> seq_len s + K \<and>
     iterations s' = iterations s + 1 \<and>
     compiled (draft_request s') = compiled (draft_request s) \<and>
     length (infer_log (draft_request s')) = length (infer_log (draft_request s)) + K"
proof -
  from spec_body_ok[OF assms(1,2)] obtain s1 mr d where
    s1: "length (accum_draft_tokens s1) = K" "caches_at (seq_len s + K) (draft_request s1)"
      "compiled (draft_request s1) = compiled (draft_request s)"
      "length (infer_log (draft_request s1)) = length (infer_log (draft_request s)) + K"
    and mr: "length (logits mr) = K" "caches_at (seq_len s + K) mr"
    and d: "d < K"
    and b: "spec_body K s = Inr (s1\<lparr>draft_request := update_state (draft_request s1) (seq_len s + (d + 1)),
                              main_request := update_state mr (seq_len s + (d + 1)),
                              attn_mask := replicate (seq_len s + (d + 1)) 1,
                              first_token := logits mr ! d,
                              accum_draft_tokens := [],
                              next_tokens := logits mr,
                              disagree_idx := Some d,
                              seq_len := seq_len s + (d + 1),
                              all_tokens := all_tokens s @ take (d + 1) (logits mr),
                              iterations := iterations s + 1\<rparr>)" (is "_ = Inr ?s'")
    by blast
  have s': "s' = ?s'" using b assms(3) by simp
  have le: "seq_len s + (d + 1) \<le> seq_len s + K" using d by simp
  have "caches_at (seq_len s + (d + 1)) (update_state (draft_request s1) (seq_len s + (d + 1)))"
    "caches_at (seq_len s + (d + 1)) (update_state mr (seq_len s + (d + 1)))"
    using caches_at_update_state[OF s1(2) le] caches_at_update_state[OF mr(2) le] by simp_all
  moreover have "length (all_tokens s) = seq_len s + 1"
    using assms(1) by (simp add: loop_inv_def)
  ultimately have "loop_inv ?s'"
    using d mr(1) by (simp add: loop_inv_def)
  then show ?thesis
    unfolding s' using d s1(3,4) by (simp add: update_state_def)
qed

lemma main_inv_spec_body:
  assumes "loop_inv s" "main_inv m prompt s" "1 \<le> K" "spec_body K s = Inr s'"
  shows "main_inv m prompt s' \<and>
     length (infer_log (main_request s')) = length (infer_log (main_request s)) + 1 \<and>
     (\<exists>ys. all_tokens s' = all_tokens s @ ys)"
proof -
  let ?n = "seq_len s"
  let ?all = "all_tokens s"
  from spec_body_ok[OF assms(1,3)] obtain s1 mr d where
    s1: "length (accum_draft_tokens s1) = K"
    and inf: "infer (main_request s) (first_token s # butlast (accum_draft_tokens s1))
           (replicate (seq_len s + K) 1) [seq_len s..<seq_len s + K] = Inr mr"
    and d: "d < K" "\<forall>j<d. accum_draft_tokens s1 ! j = logits mr ! j"
    and b: "spec_body K s = Inr (s1\<lparr>draft_request := update_state (draft_request s1) (seq_len s + (d + 1)),
                              main_request := update_state mr (seq_len s + (d + 1)),
                              attn_mask := replicate (seq_len s + (d + 1)) 1,
                              first_token := logits mr ! d,
                              accum_draft_tokens := [],
                              next_tokens := logits mr,
                              disagree_idx := Some d,
                              seq_len := seq_len s + (d + 1),
                              all_tokens := all_tokens s @ take (d + 1) (logits mr),
                              iterations := iterations s + 1\<rparr>)" (is "_ = Inr ?s'")
    by blast
  have s': "s' = ?s'" using b assms(4) by simp
  let ?drafts = "accum_draft_tokens s1"
  let ?ids = "first_token s # butlast ?drafts"
  let ?v = "logits mr"
  have len_all: "length ?all = ?n + 1" using assms(1) by (simp add: loop_inv_def)
  then have ne: "?all \<noteq> []" by auto
  have mi: "compiled (main_request s) = m"
    "query_state (main_request s) = cache_of m (butlast ?all) [0..<?n]"
    "first_token s = last ?all" "take (length prompt) ?all = prompt" "length prompt \<le> ?n"
    "greedy_from m (length prompt) ?all"
    using assms(2) by (simp_all add: main_inv_def)
  have bl: "butlast ?all @ [first_token s] = ?all"
    using ne mi(3) by simp
  have len_ids: "length ?ids = K" using s1 assms(3) by simp
  from infer_cache_of[OF mi(2,1) _ len_ids, of "replicate (?n + K) 1"] len_all inf
  have mr: "compiled mr = m"
    "query_state mr = cache_of m (butlast ?all @ ?ids) [0..<?n + K]"
    "length ?v = K"
    "\<forall>i<K. ?v ! i = greedy m (cache_of m (butlast ?all @ take (Suc i) ?ids) [0..<?n + Suc i])"
    "infer_log mr = infer_log (main_request s) @ [(?ids, replicate (?n + K) 1, [?n..<?n + K])]"
    by auto
  have agree: "take i (butlast ?drafts) = take i ?v" if "i \<le> d" for i
  proof (rule nth_equalityI)
    show "length (take i (butlast ?drafts)) = length (take i ?v)"
      using that d(1) s1 mr(3) by simp
    fix j assume "j < length (take i (butlast ?drafts))"
    then have j: "j < i" "j < K - 1" using s1 by simp_all
    then have "butlast ?drafts ! j = ?drafts ! j" using s1 by (simp add: nth_butlast)
    then show "take i (butlast ?drafts) ! j = take i ?v ! j"
      using j that d(2) by simp
  qed
  have pre: "butlast ?all @ take (Suc i) ?ids = ?all @ take i ?v" if "i \<le> d" for i
  proof -
    have "butlast ?all @ take (Suc i) ?ids = (butlast ?all @ [first_token s]) @ take i (butlast ?drafts)"
      by simp
    then show ?thesis unfolding bl agree[OF that] .
  qed
  have v: "?v ! i = greedy m (cache_of m (?all @ take i ?v) [0..<?n + Suc i])" if "i \<le> d" for i
    using mr(4) pre[OF that] that d(1) by simp
  let ?all' = "?all @ take (d + 1) ?v"
  have tk: "take (d + 1) ?v = take d ?v @ [?v ! d]"
    using d(1) mr(3) by (simp add: take_Suc_conv_app_nth)
  have g: "greedy_from m (length prompt) ?all'"
  proof (rule greedy_fromI)
    fix j assume j: "length prompt \<le> j" "j < length ?all'"
    show "?all' ! j = greedy m (cache_of m (take j ?all') [0..<j])"
    proof (cases "j < length ?all")
      case True
      then show ?thesis using greedy_fromD[OF mi(6) j(1) True] by (simp add: nth_append)
    next
      case False
      define i where "i = j - length ?all"
      have i: "i \<le> d" and ji: "j = length ?all + i"
        using False j(2) d(1) mr(3) by (auto simp: i_def)
      have jn: "j = ?n + Suc i" using ji len_all by simp
      have "?all' ! j = ?v ! i"
        unfolding ji using i d(1) mr(3) by (simp add: nth_append)
      moreover have "take j ?all' = ?all @ take i ?v"
        unfolding ji using i by (simp add: min_def)
      ultimately show ?thesis using v[OF i] unfolding jn by simp
    qed
  qed
  have q: "query_state (update_state mr (?n + (d + 1))) = cache_of m (butlast ?all') [0..<?n + (d + 1)]"
  proof -
    have "query_state (update_state mr (?n + (d + 1))) =
        cache_of m (take (?n + (d + 1)) (butlast ?all @ ?ids)) (take (?n + (d + 1)) [0..<?n + K])"
      by (simp add: update_state_def mr(2) trim_layer_take[abs_def] cache_of_take)
    moreover have "take (?n + (d + 1)) [0..<?n + K] = [0..<?n + (d + 1)]"
      using d(1) by (simp add: take_upt del: upt_Suc)
    moreover have "take (?n + (d + 1)) (butlast ?all @ ?ids) = butlast ?all @ take (Suc d) ?ids"
      using len_all by simp
    moreover have "butlast ?all' = ?all @ take d ?v"
      unfolding tk by (simp add: butlast_append)
    ultimately show ?thesis using pre[of d] by simp
  qed
  have "main_inv m prompt ?s'"
    unfolding main_inv_def
    using q g mi(4,5) mr(1) tk len_all by (simp add: update_state_def)
  moreover have "length (infer_log (main_request ?s')) = length (infer_log (main_request s)) + 1"
    using mr(5) by (simp add: update_state_def)
  ultimately show ?thesis unfolding s' by auto
qed

subsection \<open>Priming and the \<^verbatim>\<open>while\<close> loop\<close>

lemma spec_prime_ok:
  assumes "length (attention_mask inp) = length (input_ids inp)" "input_ids inp \<noteq> []"
  shows "\<exists>s. spec_prime inp dm mm = Inr s \<and> loop_inv s \<and> main_inv mm (input_ids inp) s \<and>
     seq_len s = length (input_ids inp) \<and> iterations s = 0 \<and>
     all_tokens s = input_ids inp @ [first_token s] \<and> accum_draft_tokens s = [] \<and>
     compiled (draft_request s) = dm \<and>
     length (infer_log (draft_request s)) = 1 \<and> length (infer_log (main_request s)) = 1 \<and>
     infer_log (draft_request s) =
       [(input_ids inp, attention_mask inp, [0..<length (input_ids inp)])] \<and>
     infer_log (main_request s) =
       [(input_ids inp, attention_mask inp, [0..<length (input_ids inp)])]"
proof -
  let ?ids = "input_ids inp"
  let ?L = "length ?ids"
  let ?am = "attention_mask inp"
  have c0: "caches_at 0 (create_infer_request dm)"
    by (simp add: caches_at_def create_infer_request_def list_all_iff)
  have di: "infer (create_infer_request dm) ?ids ?am [0..<?L] =
     Inr ((create_infer_request dm)\<lparr>query_state := map (\<lambda>st. st @ zip ?ids [0..<?L]) (query_state (create_infer_request dm)),
            logits := map (\<lambda>i. greedy (compiled (create_infer_request dm))
                             (map (\<lambda>st. st @ take (Suc i) (zip ?ids [0..<?L])) (query_state (create_infer_request dm))))
                        [0..<length ?ids],
            infer_log := infer_log (create_infer_request dm) @ [(?ids, ?am, [0..<?L])]\<rparr>)"
    (is "_ = Inr ?dr")
    by (rule infer_ok[OF _ c0]) (simp_all add: assms(1))
  have dc: "caches_at ?L ?dr"
    using caches_at_grow[OF c0, of ?ids "[0..<?L]"] by simp
  have q0: "query_state (create_infer_request mm) = cache_of mm [] [0..<0]"
    "compiled (create_infer_request mm) = mm"
    by (simp_all add: create_infer_request_def cache_of_def)
  from infer_cache_of[OF q0 _ refl, where ids = "?ids" and am = "?am"] assms(1)
  obtain mr where mr: "infer (create_infer_request mm) ?ids ?am [0..<?L] = Inr mr"
    "compiled mr = mm" "query_state mr = cache_of mm ?ids [0..<?L]" "length (logits mr) = ?L"
    "\<forall>i<?L. logits mr ! i = greedy mm (cache_of mm (take (Suc i) ?ids) [0..<Suc i])"
    "infer_log mr = infer_log (create_infer_request mm) @ [(?ids, ?am, [0..<?L])]"
    by auto
  have ne: "logits mr \<noteq> []" using mr(4) assms(2) by auto
  define t where "t = last (logits mr)"
  have ll: "last_logit mr = Inr t" using ne by (simp add: last_logit_def t_def)
  have "t = logits mr ! (?L - 1)" using ne mr(4) by (simp add: t_def last_conv_nth)
  then have t: "t = greedy mm (cache_of mm ?ids [0..<?L])"
    using mr(5) assms(2) by simp
  let ?s = "\<lparr>draft_request = ?dr, main_request = mr, attn_mask = ?am,
                            first_token = t, next_token = t, accum_draft_tokens = [],
                            next_tokens = [], disagree_idx = None, seq_len = ?L,
                            all_tokens = ?ids @ [t], iterations = 0\<rparr>"
  have sp: "spec_prime inp dm mm = Inr ?s"
    using assms(2) by (simp add: spec_prime_def Let_def di mr(1) ll)
  have mc: "caches_at ?L mr"
    by (simp add: caches_at_def mr(3) cache_of_def list_all_iff)
  have li: "loop_inv ?s"
    using dc mc assms(1) by (simp add: loop_inv_def)
  have "greedy_from mm ?L (?ids @ [t])"
    by (rule greedy_fromI) (simp add: t nth_append less_Suc_eq_le)
  then have mi: "main_inv mm ?ids ?s"
    by (simp add: main_inv_def mr(2,3))
  show ?thesis
    using sp li mi mr(6) by (intro exI[of _ ?s]) (simp add: create_infer_request_def)
qed

lemma loop_head_inv:
  assumes "length (attention_mask inp) = length (input_ids inp)" "input_ids inp \<noteq> []" "1 \<le> K"
    and "loop_head inp draft_model main_model K N s"
  shows "loop_inv s \<and> main_inv main_model (input_ids inp) s"
  using assms(4)
proof (induction rule: loop_head.induct)
  case (primed s)
  from spec_prime_ok[OF assms(1,2), of draft_model main_model] primed show ?case by auto
next
  case (pass s s')
  then show ?case
    using loop_inv_spec_body[OF _ assms(3), of s s'] main_inv_spec_body[OF _ _ assms(3), of s main_model "input_ids inp" s']
    by blast
qed

text \<open>
  The rule for the loop: a property that holds at the head of the loop and that every pass
  through the body keeps, while the body succeeds, holds when the loop is left, and the
  loop is left.
\<close>

lemma spec_loop_rule:
  assumes "I s"
    and "\<And>s. I s \<Longrightarrow> seq_len s < N \<Longrightarrow> \<exists>s'. spec_body K s = Inr s' \<and> I s'"
  shows "\<exists>s'. spec_loop K N s = Inr s' \<and> I s' \<and> N \<le> seq_len s'"
  using assms
proof (induction K N s rule: spec_loop.induct)
  case (1 K N s)
  note step = "1.prems"(2)
  show ?case
  proof (cases "seq_len s < N")
    case True
    from step[OF "1.prems"(1) True] obtain s1 where s1: "spec_body K s = Inr s1" "I s1"
      by blast
    from "1.IH"[OF True s1 step] obtain s' where
      "spec_loop K N s1 = Inr s'" "I s'" "N \<le> seq_len s'"
      by blast
    then show ?thesis using True s1(1) by (subst spec_loop.simps) auto
  next
    case False
    then show ?thesis using "1.prems"(1) by (subst spec_loop.simps) simp
  qed
qed

lemma spec_loop_shape:
  assumes "loop_inv s0" "1 \<le> K"
  shows "\<exists>s'. spec_loop K N s0 = Inr s' \<and> loop_inv s' \<and> N \<le> seq_len s' \<and>
     seq_len s0 \<le> seq_len s' \<and> (seq_len s0 < N \<longrightarrow> seq_len s' \<le> N + K - 1) \<and>
     (N \<le> seq_len s0 \<longrightarrow> s' = s0) \<and>
     iterations s0 \<le> iterations s' \<and> iterations s' - iterations s0 \<le> N - seq_len s0"
proof -
  define I where "I s \<longleftrightarrow> loop_inv s \<and> seq_len s0 \<le> seq_len s \<and>
     seq_len s \<le> max (seq_len s0) (N + K - 1) \<and> (N \<le> seq_len s0 \<longrightarrow> s = s0) \<and>
     iterations s0 \<le> iterations s \<and>
     (iterations s - iterations s0) + (N - seq_len s) \<le> N - seq_len s0" for s
  have i0: "I s0" using assms(1) by (simp add: I_def)
  have step: "\<exists>s'. spec_body K s = Inr s' \<and> I s'" if "I s" "seq_len s < N" for s
  proof -
    have li: "loop_inv s" using that(1) by (simp add: I_def)
    from spec_body_ok[OF li assms(2)] obtain s' where s': "spec_body K s = Inr s'" by blast
    from loop_inv_spec_body[OF li assms(2) s'] have
      "loop_inv s'" "seq_len s < seq_len s'" "seq_len s' \<le> seq_len s + K"
      "iterations s' = iterations s + 1"
      by simp_all
    moreover have "seq_len s0 \<le> seq_len s" "seq_len s \<le> max (seq_len s0) (N + K - 1)"
      "N \<le> seq_len s0 \<longrightarrow> s = s0" "iterations s0 \<le> iterations s"
      "(iterations s - iterations s0) + (N - seq_len s) \<le> N - seq_len s0"
      using that(1) unfolding I_def by blast+
    ultimately have "I s'" unfolding I_def using that(2) by linarith
    then show ?thesis using s' by blast
  qed
  from spec_loop_rule[of I s0 N K, OF i0 step] obtain s' where
    s': "spec_loop K N s0 = Inr s'" "I s'" "N \<le> seq_len s'"
    by blast
  have "loop_inv s'" "seq_len s0 \<le> seq_len s'" "seq_len s' \<le> max (seq_len s0) (N + K - 1)"
      "N \<le> seq_len s0 \<longrightarrow> s' = s0" "iterations s0 \<le> iterations s'"
      "(iterations s' - iterations s0) + (N - seq_len s') \<le> N - seq_len s0"
    using s'(2) unfolding I_def by blast+
  moreover from this have "seq_len s0 < N \<longrightarrow> seq_len s' \<le> N + K - 1"
    "iterations s' - iterations s0 \<le> N - seq_len s0"
    by linarith+
  ultimately show ?thesis using s'(1,3) by blast
qed

lemma spec_loop_main:
  assumes "loop_inv s0" "main_inv m prompt s0" "1 \<le> K"
  shows "\<exists>s'. spec_loop K N s0 = Inr s' \<and> main_inv m prompt s' \<and>
     length (infer_log (main_request s')) =
       length (infer_log (main_request s0)) + (iterations s' - iterations s0) \<and>
     (\<exists>ys. all_tokens s' = all_tokens s0 @ ys)"
proof -
  define I where "I s \<longleftrightarrow> loop_inv s \<and> main_inv m prompt s \<and>
     iterations s0 \<le> iterations s \<and>
     length (infer_log (main_request s)) =
       length (infer_log (main_request s0)) + (iterations s - iterations s0) \<and>
     (\<exists>ys. all_tokens s = all_tokens s0 @ ys)" for s
  have i0: "I s0" using assms(1,2) by (simp add: I_def)
  have step: "\<exists>s'. spec_body K s = Inr s' \<and> I s'" if "I s" "seq_len s < N" for s
  proof -
    have li: "loop_inv s" and mi: "main_inv m prompt s" using that(1) by (simp_all add: I_def)
    from spec_body_ok[OF li assms(3)] obtain s' where s': "spec_body K s = Inr s'" by blast
    from loop_inv_spec_body[OF li assms(3) s'] have
      a: "loop_inv s'" "iterations s' = iterations s + 1"
      by simp_all
    from main_inv_spec_body[OF li mi assms(3) s'] obtain ys where
      b: "main_inv m prompt s'"
      "length (infer_log (main_request s')) = length (infer_log (main_request s)) + 1"
      "all_tokens s' = all_tokens s @ ys"
      by blast
    from that(1) obtain zs where "all_tokens s = all_tokens s0 @ zs" by (auto simp: I_def)
    then have p: "\<exists>ws. all_tokens s' = all_tokens s0 @ ws" using b(3) by simp
    have "iterations s0 \<le> iterations s"
      "length (infer_log (main_request s)) =
         length (infer_log (main_request s0)) + (iterations s - iterations s0)"
      using that(1) unfolding I_def by blast+
    then have "iterations s0 \<le> iterations s'"
      "length (infer_log (main_request s')) =
         length (infer_log (main_request s0)) + (iterations s' - iterations s0)"
      using a(2) b(2) by simp_all
    then have "I s'" unfolding I_def using a(1) b(1) p by blast
    then show ?thesis using s' by blast
  qed
  from spec_loop_rule[of I s0 N K, OF i0 step] obtain s' where
    s': "spec_loop K N s0 = Inr s'" "I s'"
    by blast
  then show ?thesis unfolding I_def by blast
qed

text \<open>The whole run on a non-empty prompt whose mask has the prompt's length.\<close>

lemma spec_run_ok:
  assumes "length (attention_mask inp) = length (input_ids inp)" "input_ids inp \<noteq> []" "1 \<le> K"
  shows "\<exists>s. spec_run inp dm mm K N = Inr s \<and> loop_inv s \<and> main_inv mm (input_ids inp) s \<and>
     N \<le> seq_len s \<and> length (input_ids inp) \<le> seq_len s \<and>
     (length (input_ids inp) < N \<longrightarrow> seq_len s \<le> N + K - 1) \<and>
     (N \<le> length (input_ids inp) \<longrightarrow> seq_len s = length (input_ids inp)) \<and>
     iterations s \<le> N - length (input_ids inp) \<and>
     length (infer_log (main_request s)) = 1 + iterations s"
proof -
  from spec_prime_ok[OF assms(1,2), of dm mm] obtain s0 where s0:
    "spec_prime inp dm mm = Inr s0" "loop_inv s0" "main_inv mm (input_ids inp) s0"
    "seq_len s0 = length (input_ids inp)" "iterations s0 = 0"
    "length (infer_log (main_request s0)) = 1"
    by blast
  from spec_loop_shape[OF s0(2) assms(3), of N] obtain s where s:
    "spec_loop K N s0 = Inr s" "loop_inv s" "N \<le> seq_len s" "seq_len s0 \<le> seq_len s"
    "seq_len s0 < N \<longrightarrow> seq_len s \<le> N + K - 1" "N \<le> seq_len s0 \<longrightarrow> s = s0"
    "iterations s - iterations s0 \<le> N - seq_len s0"
    by blast
  from spec_loop_main[OF s0(2,3) assms(3), of N] s(1) have m:
    "main_inv mm (input_ids inp) s"
    "length (infer_log (main_request s)) =
       length (infer_log (main_request s0)) + (iterations s - iterations s0)"
    by auto
  have "spec_run inp dm mm K N = Inr s" by (simp add: spec_run_def s0(1) s(1))
  moreover have "length (input_ids inp) \<le> seq_len s"
    "length (input_ids inp) < N \<longrightarrow> seq_len s \<le> N + K - 1"
    "N \<le> length (input_ids inp) \<longrightarrow> seq_len s = length (input_ids inp)"
    "iterations s \<le> N - length (input_ids inp)"
    "length (infer_log (main_request s)) = 1 + iterations s"
    using s(4-7) m(2) s0(4-6) by auto
  ultimately show ?thesis using s(2,3) m(1) by blast
qed

subsection \<open>\<open>K = 0\<close>\<close>

text \<open>
  With \<open>K = 0\<close> the draft loop does not run, the main model is given one token and no
  position id, and the pass fails. (Were it to succeed, the comparison loop would have no
  pair to bind \<open>disagree_idx\<close> with, and the next line would fail on the unbound
  variable.)
\<close>

lemma spec_body_zero: "spec_body 0 s = Inl InferenceError"
  by (simp add: spec_body_def draft_phase_def verify_phase_def infer_def)

lemma accept_phase_unbound:
  "accum_draft_tokens s = [] \<Longrightarrow> disagree_idx s = None \<Longrightarrow> accept_phase s = Inl UnboundLocalError"
  by (simp add: accept_phase_def)

lemma spec_loop_zero: "spec_loop 0 N s = (if seq_len s < N then Inl InferenceError else Inr s)"
  by (subst spec_loop.simps) (simp add: spec_body_zero)

subsection \<open>Naive decoding\<close>

lemma length_ar_positions: "L \<le> n \<Longrightarrow> length (ar_positions L n) = n"
  by (simp add: ar_positions_def)

lemma ar_positions_Suc: "L \<le> n \<Longrightarrow> ar_positions L (n + 1) = ar_positions L n @ [n + 1]"
  by (simp add: ar_positions_def)

lemma ar_positions_self: "ar_positions L L = [0..<L]"
  by (simp add: ar_positions_def)

lemma ar_followsI:
  "(\<And>j. L \<le> j \<Longrightarrow> j < length xs \<Longrightarrow>
      xs ! j = greedy m (cache_of m (take j xs) (ar_positions L j)))
   \<Longrightarrow> ar_follows m L xs"
  by (simp add: ar_follows_def list_all_iff)

lemma ar_followsD:
  "ar_follows m L xs \<Longrightarrow> L \<le> j \<Longrightarrow> j < length xs \<Longrightarrow>
   xs ! j = greedy m (cache_of m (take j xs) (ar_positions L j))"
  by (simp add: ar_follows_def list_all_iff)

text \<open>A pass over one token, with any position id.\<close>

lemma infer_one:
  assumes "query_state r = cache_of m toks ps" "compiled r = m"
    "length toks = n" "length ps = n" "length am = n + 1"
  shows "infer r [t] am [p] =
     Inr (r\<lparr>query_state := cache_of m (toks @ [t]) (ps @ [p]),
            logits := [greedy m (cache_of m (toks @ [t]) (ps @ [p]))],
            infer_log := infer_log r @ [([t], am, [p])]\<rparr>)"
proof -
  have c: "caches_at n r"
    using assms(1,3,4) by (simp add: caches_at_def cache_of_def list_all_iff)
  have e: "map (\<lambda>st. st @ [(t, p)]) (cache_of m toks ps) = cache_of m (toks @ [t]) (ps @ [p])"
    using cache_of_append[of toks ps "[t]" "[p]" m] assms(3,4) by simp
  show ?thesis
    by (subst infer_ok[OF _ c]) (simp_all add: assms(1,2,5) e)
qed

lemma ar_body_ok:
  assumes "ar_inv m prompt s"
  shows "\<exists>s'. ar_body s = Inr s' \<and> ar_inv m prompt s' \<and> ar_seq_len s' = ar_seq_len s + 1 \<and>
     length (infer_log (ar_request s')) = length (infer_log (ar_request s)) + 1 \<and>
     (\<exists>t. ar_all_tokens s' = ar_all_tokens s @ [t])"
proof -
  let ?L = "length prompt"
  let ?n = "ar_seq_len s"
  let ?all = "ar_all_tokens s"
  have ai: "compiled (ar_request s) = m"
    "query_state (ar_request s) = cache_of m (butlast ?all) (ar_positions ?L ?n)"
    "ar_next_token s = last ?all" "length ?all = ?n + 1" "length (ar_attention_mask s) = ?n"
    "take ?L ?all = prompt" "?L \<le> ?n" "ar_follows m ?L ?all"
    using assms by (simp_all add: ar_inv_def)
  have ne: "?all \<noteq> []" using ai(4) by auto
  have bl: "butlast ?all @ [ar_next_token s] = ?all" using ne ai(3) by simp
  let ?am = "ar_attention_mask s @ [1]"
  define t where "t = greedy m (cache_of m ?all (ar_positions ?L (?n + 1)))"
  let ?r = "(ar_request s)\<lparr>query_state := cache_of m ?all (ar_positions ?L (?n + 1)),
            logits := [t],
            infer_log := infer_log (ar_request s) @ [([ar_next_token s], ?am, [?n + 1])]\<rparr>"
  have inf: "infer (ar_request s) [ar_next_token s] ?am [length ?am] = Inr ?r"
    using infer_one[OF ai(2,1), of ?n ?am "ar_next_token s" "?n + 1"]
      ai(4,5,7) length_ar_positions[OF ai(7)] ar_positions_Suc[OF ai(7)]
    by (simp add: bl t_def)
  have ll: "last_logit ?r = Inr t" by (simp add: last_logit_def)
  let ?s' = "s\<lparr>ar_request := ?r, ar_attention_mask := ?am, ar_next_token := t,
                 ar_all_tokens := ?all @ [t], ar_seq_len := ?n + 1\<rparr>"
  have b: "ar_body s = Inr ?s'"
    unfolding ar_body_def Let_def inf sum.case ll ..
  have f: "ar_follows m ?L (?all @ [t])"
  proof (rule ar_followsI)
    fix j assume j: "?L \<le> j" "j < length (?all @ [t])"
    show "(?all @ [t]) ! j = greedy m (cache_of m (take j (?all @ [t])) (ar_positions ?L j))"
    proof (cases "j < length ?all")
      case True
      then show ?thesis using ar_followsD[OF ai(8) j(1) True] by (simp add: nth_append)
    next
      case False
      then have "j = ?n + 1" using j(2) ai(4) by simp
      then show ?thesis using ai(4) by (simp add: nth_append t_def)
    qed
  qed
  have "ar_inv m prompt ?s'"
    unfolding ar_inv_def using ai(1,4,5,6,7) f by simp
  then show ?thesis using b by (intro exI[of _ ?s']) simp
qed

lemma ar_loop_ok:
  assumes "ar_inv m prompt s"
  shows "\<exists>s'. ar_loop N s = Inr s' \<and> ar_inv m prompt s' \<and>
     ar_seq_len s' = max N (ar_seq_len s) \<and>
     length (infer_log (ar_request s')) =
       length (infer_log (ar_request s)) + (N - ar_seq_len s) \<and>
     (\<exists>ys. ar_all_tokens s' = ar_all_tokens s @ ys)"
  using assms
proof (induction N s rule: ar_loop.induct)
  case (1 N s)
  show ?case
  proof (cases "ar_seq_len s < N")
    case True
    from ar_body_ok[OF "1.prems"] obtain s1 t where s1: "ar_body s = Inr s1" "ar_inv m prompt s1"
      "ar_seq_len s1 = ar_seq_len s + 1"
      "length (infer_log (ar_request s1)) = length (infer_log (ar_request s)) + 1"
      "ar_all_tokens s1 = ar_all_tokens s @ [t]"
      by blast
    from "1.IH"[OF True s1(1,2)] obtain s' ys where s': "ar_loop N s1 = Inr s'" "ar_inv m prompt s'"
      "ar_seq_len s' = max N (ar_seq_len s1)"
      "length (infer_log (ar_request s')) = length (infer_log (ar_request s1)) + (N - ar_seq_len s1)"
      "ar_all_tokens s' = ar_all_tokens s1 @ ys"
      by blast
    have "ar_loop N s = Inr s'" using True s1(1) s'(1) by (subst ar_loop.simps) simp
    moreover have "ar_seq_len s' = max N (ar_seq_len s)" using s'(3) s1(3) True by simp
    moreover have "length (infer_log (ar_request s')) =
        length (infer_log (ar_request s)) + (N - ar_seq_len s)"
      using s'(4) s1(3,4) True by simp
    moreover have "ar_all_tokens s' = ar_all_tokens s @ (t # ys)" using s'(5) s1(5) by simp
    ultimately show ?thesis using s'(2) by blast
  next
    case False
    then have "ar_loop N s = Inr s" by (subst ar_loop.simps) simp
    moreover have "ar_seq_len s = max N (ar_seq_len s)" using False by simp
    moreover have "length (infer_log (ar_request s)) =
        length (infer_log (ar_request s)) + (N - ar_seq_len s)"
      using False by simp
    ultimately show ?thesis using "1.prems" by (intro exI[of _ s]) simp
  qed
qed

lemma ar_prime_ok:
  assumes "length (attention_mask inp) = length (input_ids inp)" "input_ids inp \<noteq> []"
  shows "\<exists>s. ar_prime inp m = Inr s \<and> ar_inv m (input_ids inp) s \<and>
     ar_seq_len s = length (input_ids inp) \<and> length (infer_log (ar_request s)) = 1"
proof -
  let ?ids = "input_ids inp"
  let ?L = "length ?ids"
  let ?am = "attention_mask inp"
  have q0: "query_state (create_infer_request m) = cache_of m [] [0..<0]"
    "compiled (create_infer_request m) = m"
    by (simp_all add: create_infer_request_def cache_of_def)
  from infer_cache_of[OF q0 _ refl, where ids = "?ids" and am = "?am"] assms(1)
  obtain r where r: "infer (create_infer_request m) ?ids ?am [0..<?L] = Inr r"
    "compiled r = m" "query_state r = cache_of m ?ids [0..<?L]" "length (logits r) = ?L"
    "\<forall>i<?L. logits r ! i = greedy m (cache_of m (take (Suc i) ?ids) [0..<Suc i])"
    "infer_log r = infer_log (create_infer_request m) @ [(?ids, ?am, [0..<?L])]"
    by auto
  have ne: "logits r \<noteq> []" using r(4) assms(2) by auto
  define t where "t = last (logits r)"
  have ll: "last_logit r = Inr t" using ne by (simp add: last_logit_def t_def)
  have "t = logits r ! (?L - 1)" using ne r(4) by (simp add: t_def last_conv_nth)
  then have t: "t = greedy m (cache_of m ?ids [0..<?L])"
    using r(5) assms(2) by simp
  let ?s = "\<lparr>ar_request = r, ar_attention_mask = ?am, ar_next_token = t,
             ar_all_tokens = ?ids @ [t], ar_seq_len = ?L\<rparr>"
  have p: "ar_prime inp m = Inr ?s"
    using assms(2) by (simp add: ar_prime_def Let_def r(1) ll)
  have "ar_follows m ?L (?ids @ [t])"
    by (rule ar_followsI) (simp add: t nth_append less_Suc_eq_le ar_positions_self)
  then have "ar_inv m ?ids ?s"
    by (simp add: ar_inv_def r(2,3) assms(1) ar_positions_self)
  then show ?thesis
    using p r(6) by (intro exI[of _ ?s]) (simp add: create_infer_request_def)
qed

lemma ar_run_ok:
  assumes "length (attention_mask inp) = length (input_ids inp)" "input_ids inp \<noteq> []"
  shows "\<exists>s. ar_run inp m N = Inr s \<and> ar_inv m (input_ids inp) s \<and>
     ar_seq_len s = max N (length (input_ids inp)) \<and>
     length (infer_log (ar_request s)) = 1 + (N - length (input_ids inp))"
proof -
  from ar_prime_ok[OF assms, of m] obtain s0 where s0: "ar_prime inp m = Inr s0"
    "ar_inv m (input_ids inp) s0" "ar_seq_len s0 = length (input_ids inp)"
    "length (infer_log (ar_request s0)) = 1"
    by blast
  from ar_loop_ok[OF s0(2), of N] obtain s where s: "ar_loop N s0 = Inr s"
    "ar_inv m (input_ids inp) s" "ar_seq_len s = max N (ar_seq_len s0)"
    "length (infer_log (ar_request s)) = length (infer_log (ar_request s0)) + (N - ar_seq_len s0)"
    by blast
  have "ar_run inp m N = Inr s" by (simp add: ar_run_def s0(1) s(1))
  then show ?thesis using s(2-4) s0(3,4) by (intro exI[of _ s]) simp
qed

subsection \<open>Comparing the two routines\<close>

lemma position_blind_cache_of:
  assumes "position_blind m" "length ps = length toks" "length qs = length toks"
  shows "greedy m (cache_of m toks ps) = greedy m (cache_of m toks qs)"
proof -
  have "map (map fst) (cache_of m toks ps) = map (map fst) (cache_of m toks qs)"
    using assms(2,3) by (simp add: cache_of_def)
  then show ?thesis using assms(1) unfolding position_blind_def by blast
qed

lemma ar_follows_greedy_from:
  assumes "position_blind m" "ar_follows m L xs"
  shows "greedy_from m L xs"
proof (rule greedy_fromI)
  fix j assume j: "L \<le> j" "j < length xs"
  have "greedy m (cache_of m (take j xs) (ar_positions L j)) =
        greedy m (cache_of m (take j xs) [0..<j])"
    by (rule position_blind_cache_of[OF assms(1)])
       (use j in \<open>simp_all add: length_ar_positions\<close>)
  then show "xs ! j = greedy m (cache_of m (take j xs) [0..<j])"
    using ar_followsD[OF assms(2) j] by simp
qed

text \<open>Greedy decoding is deterministic: two greedy continuations of one prompt agree as far
  as the shorter one goes.\<close>

lemma greedy_from_prefix:
  assumes "greedy_from m L xs" "greedy_from m L ys" "take L xs = take L ys"
    "length ys \<le> length xs" "k \<le> length ys"
  shows "take k ys = take k xs"
  using assms(5)
proof (induction k)
  case 0
  then show ?case by simp
next
  case (Suc k)
  then have k: "k < length ys" "k < length xs" using assms(4) by simp_all
  have ih: "take k ys = take k xs" using Suc by simp
  show ?case
  proof (cases "k < L")
    case True
    then have "take (Suc k) ys = take (Suc k) (take L ys)" "take (Suc k) xs = take (Suc k) (take L xs)"
      by (simp_all add: min_def)
    then show ?thesis using assms(3) by simp
  next
    case False
    then have "L \<le> k" by simp
    from greedy_fromD[OF assms(1) this k(2)] greedy_fromD[OF assms(2) this k(1)] ih
    have "ys ! k = xs ! k" by simp
    then show ?thesis using ih k by (simp add: take_Suc_conv_app_nth)
  qed
qed

subsection \<open>The example run\<close>

lemma spec_prime_toy: "spec_prime toy_input toy_draft toy_main = Inr toy_primed"
  by (simp add: spec_prime_def toy_input_def toy_draft_def toy_main_def toy_primed_def
      infer_def create_infer_request_def last_logit_def Let_def eval_nat_numeral upt_rec)

lemma loop_inv_toy_primed: "loop_inv toy_primed"
  by code_simp

lemma spec_body_before_trim:
  "spec_body K s = (case before_trim K s of Inl e \<Rightarrow> Inl e | Inr s3 \<Rightarrow> Inr (trim_phase s3))"
  by (simp add: spec_body_def before_trim_def split: sum.splits)

lemma before_trim_toy: "before_trim 3 toy_primed = Inr toy_untrimmed"
  by (simp add: before_trim_def draft_phase_def verify_phase_def accept_phase_def
      toy_primed_def toy_untrimmed_def toy_draft_def toy_main_def infer_def last_logit_def
      Let_def eval_nat_numeral upt_rec)

lemma toy_spec_3_3:
  "speculative_sampling_with_pkv toy_input toy_draft toy_main 3 3 = Inr [1, 2, 0, 2, 3]"
  by code_simp

lemma toy_ar_3: "autoregressive_sampling_with_pkv toy_input toy_main 3 = Inr [1, 2, 0, 2]"
  by code_simp

lemma position_blind_toy_main: "position_blind toy_main"
proof -
  have "sum_list (map fst (concat c)) = sum_list (concat (map (map fst) c))"
    and "length (concat c) = length (concat (map (map fst) c))" for c :: "kv list list"
    by (simp_all add: map_concat length_concat comp_def)
  then have "greedy toy_main c = (sum_list (concat (map (map fst) c)) +
      int (length (concat (map (map fst) c)))) mod 5" for c
    by (simp add: toy_main_def)
  then show ?thesis unfolding position_blind_def by simp
qed

text \<open>
  The position ids of the two routines: with a main model that reads them, the sequences
  differ from the second generated token on, also for \<open>K = 1\<close>.
\<close>

lemma position_ids_differ:
  "autoregressive_sampling_with_pkv toy_input pos_main 4 = Inr [1, 2, 1, 4, 8] \<and>
   speculative_sampling_with_pkv toy_input toy_draft pos_main 1 4 = Inr [1, 2, 1, 3, 6]"
  by code_simp

section \<open>The claims\<close>

text \<open>
  The statements about one iteration are made for every state that satisfies
  \<open>loop_inv\<close> (and \<open>main_inv\<close>, where the predictions of the main model are
  spoken of). These include every state in which a run on a non-empty prompt, with a
  mask of the prompt's length and \<open>K \<ge> 1\<close>, reaches the head of the loop
  (\<open>loop_head_inv\<close>).
\<close>

text \<open>
  C1: the sequences are not identical in general. The speculative loop appends up to \<open>K\<close>
  tokens per iteration and tests \<open>seq_len < N\<close> only between iterations, so it can return
  more than \<open>N + 1\<close> tokens; and the two routines give the generated tokens different
  position ids (\<open>position_ids_differ\<close>). What holds, for a main model whose greedy
  choice does not depend on position ids, on a non-empty prompt whose attention mask is all
  ones (the naive routine keeps the prompt's mask, the speculative one replaces it by ones)
  and for \<open>K \<ge> 1\<close>: both routines return, the naive result has
  \<open>max N prompt_len + 1\<close> tokens, the speculative result has at most \<open>K - 1\<close> more, and
  the naive result is the speculative result cut to that length. For \<open>K = 1\<close> the two are
  equal.
\<close>

theorem autoregressive_is_prefix_of_speculative:
  assumes "1 \<le> K" and "position_blind main_model"
    and "attention_mask inp = replicate (length (input_ids inp)) 1" and "input_ids inp \<noteq> []"
  shows "\<exists>xs ys. speculative_sampling_with_pkv inp draft_model main_model K N = Inr xs \<and>
     autoregressive_sampling_with_pkv inp main_model N = Inr ys \<and>
     length ys = max N (length (input_ids inp)) + 1 \<and>
     length ys \<le> length xs \<and> length xs \<le> length ys + (K - 1) \<and>
     ys = take (length ys) xs"
proof -
  let ?L = "length (input_ids inp)"
  have len: "length (attention_mask inp) = ?L" by (simp add: assms(3))
  from spec_run_ok[OF len assms(4,1), of draft_model main_model N] obtain s where
    s: "spec_run inp draft_model main_model K N = Inr s" "loop_inv s"
      "main_inv main_model (input_ids inp) s" "N \<le> seq_len s" "?L \<le> seq_len s"
      "?L < N \<longrightarrow> seq_len s \<le> N + K - 1" "N \<le> ?L \<longrightarrow> seq_len s = ?L"
    by blast
  from ar_run_ok[OF len assms(4), of main_model N] obtain a where
    a: "ar_run inp main_model N = Inr a" "ar_inv main_model (input_ids inp) a"
      "ar_seq_len a = max N ?L"
    by blast
  let ?xs = "all_tokens s" and ?ys = "ar_all_tokens a"
  have sx: "length ?xs = seq_len s + 1" "accum_draft_tokens s = []"
    using s(2) by (simp_all add: loop_inv_def)
  have gx: "take ?L ?xs = input_ids inp" "greedy_from main_model ?L ?xs"
    using s(3) by (simp_all add: main_inv_def)
  have ay: "length ?ys = ar_seq_len a + 1" "take ?L ?ys = input_ids inp"
    "ar_follows main_model ?L ?ys"
    using a(2) by (simp_all add: ar_inv_def)
  have gy: "greedy_from main_model ?L ?ys"
    by (rule ar_follows_greedy_from[OF assms(2) ay(3)])
  have ly: "length ?ys = max N ?L + 1" using ay(1) a(3) by simp
  have le: "length ?ys \<le> length ?xs" using ly sx(1) s(4,5) by simp
  have ub: "length ?xs \<le> length ?ys + (K - 1)" using ly sx(1) s(6,7) assms(1) by auto
  have "take (length ?ys) ?ys = take (length ?ys) ?xs"
    by (rule greedy_from_prefix[OF gx(2) gy _ le]) (simp_all add: gx(1) ay(2))
  then have pre: "?ys = take (length ?ys) ?xs" by simp
  have "speculative_sampling_with_pkv inp draft_model main_model K N = Inr ?xs"
    by (simp add: speculative_sampling_with_pkv_def s(1) sx(2))
  moreover have "autoregressive_sampling_with_pkv inp main_model N = Inr ?ys"
    by (simp add: autoregressive_sampling_with_pkv_def a(1))
  ultimately show ?thesis using ly le ub pre by blast
qed

theorem autoregressive_is_prefix_of_speculative_witness:
  "(1::nat) \<le> 3 \<and> position_blind toy_main \<and>
   attention_mask toy_input = replicate (length (input_ids toy_input)) 1 \<and>
   input_ids toy_input \<noteq> [] \<and>
   (\<exists>xs ys. speculative_sampling_with_pkv toy_input toy_draft toy_main 3 3 = Inr xs \<and>
     autoregressive_sampling_with_pkv toy_input toy_main 3 = Inr ys \<and>
     length ys = max 3 (length (input_ids toy_input)) + 1 \<and>
     length ys \<le> length xs \<and> length xs \<le> length ys + (3 - 1) \<and>
     ys = take (length ys) xs)"
proof -
  have m: "attention_mask toy_input = replicate (length (input_ids toy_input)) 1"
    by code_simp
  have h: "(1::nat) \<le> 3" "position_blind toy_main"
    "attention_mask toy_input = replicate (length (input_ids toy_input)) 1"
    "input_ids toy_input \<noteq> []"
    by (simp_all add: position_blind_toy_main m) (simp add: toy_input_def)
  from autoregressive_is_prefix_of_speculative[OF h, of toy_draft 3] h show ?thesis by blast
qed

text \<open>
  The claim as written fails on the example prompt: with \<open>K = 3\<close> and \<open>N = 3\<close> the
  speculative result has one token more than the naive one, and with the main model that
  reads position ids the results differ for \<open>K = 1\<close>.
\<close>

theorem speculative_differs_from_autoregressive:
  "speculative_sampling_with_pkv toy_input toy_draft toy_main 3 3 = Inr [1, 2, 0, 2, 3] \<and>
   autoregressive_sampling_with_pkv toy_input toy_main 3 = Inr [1, 2, 0, 2] \<and>
   speculative_sampling_with_pkv toy_input toy_draft toy_main 3 3 \<noteq>
     autoregressive_sampling_with_pkv toy_input toy_main 3 \<and>
   speculative_sampling_with_pkv toy_input toy_draft pos_main 1 4 = Inr [1, 2, 1, 3, 6] \<and>
   autoregressive_sampling_with_pkv toy_input pos_main 4 = Inr [1, 2, 1, 4, 8] \<and>
   speculative_sampling_with_pkv toy_input toy_draft pos_main 1 4 \<noteq>
     autoregressive_sampling_with_pkv toy_input pos_main 4"
  using toy_spec_3_3 toy_ar_3 position_ids_differ by simp

text \<open>
  C2: in an iteration that starts at a loop head (\<open>loop_inv\<close> and \<open>main_inv\<close>) with
  \<open>K \<ge> 1\<close>, the draft phase yields \<open>K\<close> draft tokens; the pass of the main model over
  the last accepted token and the first \<open>K - 1\<close> draft tokens yields \<open>next_tokens\<close>,
  whose \<open>i\<close>-th entry is the main model's greedy choice after the confirmed tokens and
  the first \<open>i\<close> draft tokens; \<open>disagree_idx\<close> is the least index below \<open>K\<close> at which
  draft and prediction differ, or \<open>K - 1\<close> when they differ nowhere; and the iteration
  appends the main model's predictions \<open>0..disagree_idx\<close>.
\<close>

theorem spec_body_first_disagreement:
  assumes "loop_inv s" and "1 \<le> K" and "main_inv main_model prompt s"
  shows "\<exists>s1 s2 s' d. draft_phase K s = Inr s1 \<and> verify_phase K s1 = Inr s2 \<and>
     spec_body K s = Inr s' \<and>
     accum_draft_tokens s2 = accum_draft_tokens s1 \<and>
     infer (main_request s) (first_token s # butlast (accum_draft_tokens s1))
       (replicate (seq_len s + K) 1) [seq_len s..<seq_len s + K] = Inr (main_request s2) \<and>
     next_tokens s2 = logits (main_request s2) \<and>
     (\<forall>i<K. next_tokens s2 ! i =
        greedy main_model
          (cache_of main_model (all_tokens s @ take i (accum_draft_tokens s1))
             [0..<seq_len s + Suc i])) \<and>
     length (accum_draft_tokens s2) = K \<and> length (next_tokens s2) = K \<and>
     d = (if \<exists>i<K. accum_draft_tokens s2 ! i \<noteq> next_tokens s2 ! i
          then (LEAST i. i < K \<and> accum_draft_tokens s2 ! i \<noteq> next_tokens s2 ! i)
          else K - 1) \<and>
     disagree_idx s' = Some d \<and>
     all_tokens s' = all_tokens s @ take (d + 1) (next_tokens s2)"
proof -
  from spec_body_ok[OF assms(1,2)] obtain s1 mr d where
    s1: "draft_phase K s = Inr s1" "length (accum_draft_tokens s1) = K"
    and inf: "infer (main_request s) (first_token s # butlast (accum_draft_tokens s1))
           (replicate (seq_len s + K) 1) [seq_len s..<seq_len s + K] = Inr mr"
    and v: "verify_phase K s1 = Inr (s1\<lparr>main_request := mr,
              attn_mask := replicate (seq_len s + K) 1, next_tokens := logits mr\<rparr>)"
      (is "_ = Inr ?s2")
    and mr: "length (logits mr) = K"
    and d: "d < K" "\<forall>j<d. accum_draft_tokens s1 ! j = logits mr ! j"
      "accum_draft_tokens s1 ! d \<noteq> logits mr ! d \<or> d = K - 1"
    and b: "spec_body K s = Inr (s1\<lparr>draft_request := update_state (draft_request s1) (seq_len s + (d + 1)),
                              main_request := update_state mr (seq_len s + (d + 1)),
                              attn_mask := replicate (seq_len s + (d + 1)) 1,
                              first_token := logits mr ! d,
                              accum_draft_tokens := [],
                              next_tokens := logits mr,
                              disagree_idx := Some d,
                              seq_len := seq_len s + (d + 1),
                              all_tokens := all_tokens s @ take (d + 1) (logits mr),
                              iterations := iterations s + 1\<rparr>)" (is "_ = Inr ?s'")
    by blast
  let ?n = "seq_len s" and ?all = "all_tokens s" and ?drafts = "accum_draft_tokens s1"
  let ?ids = "first_token s # butlast ?drafts"
  have len_all: "length ?all = ?n + 1" using assms(1) by (simp add: loop_inv_def)
  then have ne: "?all \<noteq> []" by auto
  have mi: "compiled (main_request s) = main_model"
    "query_state (main_request s) = cache_of main_model (butlast ?all) [0..<?n]"
    "first_token s = last ?all"
    using assms(3) by (simp_all add: main_inv_def)
  have bl: "butlast ?all @ [first_token s] = ?all" using ne mi(3) by simp
  have len_ids: "length ?ids = K" using s1(2) assms(2) by simp
  from infer_cache_of[OF mi(2,1) _ len_ids, of "replicate (?n + K) 1"] len_all inf
  have lg: "\<forall>i<K. logits mr ! i =
      greedy main_model (cache_of main_model (butlast ?all @ take (Suc i) ?ids) [0..<?n + Suc i])"
    by auto
  have pred: "\<forall>i<K. next_tokens ?s2 ! i =
      greedy main_model (cache_of main_model (?all @ take i ?drafts) [0..<?n + Suc i])"
  proof (intro allI impI)
    fix i assume i: "i < K"
    have "i \<le> K - 1" using i by simp
    then have "take i (butlast ?drafts) = take i ?drafts"
      using s1(2) by (simp add: butlast_conv_take min_absorb1)
    then have "butlast ?all @ take (Suc i) ?ids = (butlast ?all @ [first_token s]) @ take i ?drafts"
      by simp
    then have "butlast ?all @ take (Suc i) ?ids = ?all @ take i ?drafts"
      unfolding bl .
    then show "next_tokens ?s2 ! i =
        greedy main_model (cache_of main_model (?all @ take i ?drafts) [0..<?n + Suc i])"
      using lg i by simp
  qed
  let ?P = "\<lambda>i. i < K \<and> accum_draft_tokens s1 ! i \<noteq> logits mr ! i"
  have "d = (if \<exists>i<K. accum_draft_tokens s1 ! i \<noteq> logits mr ! i then (LEAST i. ?P i) else K - 1)"
  proof (cases "accum_draft_tokens s1 ! d \<noteq> logits mr ! d")
    case True
    then have "?P d" using d(1) by simp
    moreover have "\<And>y. ?P y \<Longrightarrow> d \<le> y" using d(2) by (meson not_le)
    ultimately have "(LEAST i. ?P i) = d" by (rule Least_equality)
    then show ?thesis using \<open>?P d\<close> by auto
  next
    case False
    then have dk: "d = K - 1" using d(3) by simp
    have ne: "\<not> (\<exists>i<K. accum_draft_tokens s1 ! i \<noteq> logits mr ! i)"
    proof
      assume "\<exists>i<K. accum_draft_tokens s1 ! i \<noteq> logits mr ! i"
      then obtain i where i: "i < K" "accum_draft_tokens s1 ! i \<noteq> logits mr ! i" by blast
      then have "i < d \<or> i = d" using dk by linarith
      then show False using i(2) d(2) False by auto
    qed
    show ?thesis unfolding if_not_P[OF ne] by (rule dk)
  qed
  moreover have sel: "accum_draft_tokens ?s2 = accum_draft_tokens s1" "next_tokens ?s2 = logits mr"
    by simp_all
  ultimately have e: "d = (if \<exists>i<K. accum_draft_tokens ?s2 ! i \<noteq> next_tokens ?s2 ! i
          then (LEAST i. i < K \<and> accum_draft_tokens ?s2 ! i \<noteq> next_tokens ?s2 ! i)
          else K - 1)"
    by (simp only:)
  have l: "length (accum_draft_tokens ?s2) = K" "length (next_tokens ?s2) = K"
    using s1(2) mr by simp_all
  have r: "disagree_idx ?s' = Some d"
    "all_tokens ?s' = all_tokens s @ take (d + 1) (next_tokens ?s2)"
    by simp_all
  have i2: "infer (main_request s) ?ids (replicate (?n + K) 1) [?n..<?n + K] =
      Inr (main_request ?s2)"
    "next_tokens ?s2 = logits (main_request ?s2)"
    using inf by simp_all
  from s1(1) v b sel(1) i2 pred l e r show ?thesis by blast
qed

theorem spec_body_first_disagreement_witness:
  "loop_inv toy_primed \<and> (1::nat) \<le> 3 \<and> main_inv toy_main (input_ids toy_input) toy_primed \<and>
   (\<exists>s1 s2 s' d. draft_phase 3 toy_primed = Inr s1 \<and> verify_phase 3 s1 = Inr s2 \<and>
     spec_body 3 toy_primed = Inr s' \<and>
     accum_draft_tokens s2 = accum_draft_tokens s1 \<and>
     infer (main_request toy_primed) (first_token toy_primed # butlast (accum_draft_tokens s1))
       (replicate (seq_len toy_primed + 3) 1) [seq_len toy_primed..<seq_len toy_primed + 3] =
       Inr (main_request s2) \<and>
     next_tokens s2 = logits (main_request s2) \<and>
     (\<forall>i<3. next_tokens s2 ! i =
        greedy toy_main
          (cache_of toy_main (all_tokens toy_primed @ take i (accum_draft_tokens s1))
             [0..<seq_len toy_primed + Suc i])) \<and>
     length (accum_draft_tokens s2) = 3 \<and> length (next_tokens s2) = 3 \<and>
     d = (if \<exists>i<3. accum_draft_tokens s2 ! i \<noteq> next_tokens s2 ! i
          then (LEAST i. i < 3 \<and> accum_draft_tokens s2 ! i \<noteq> next_tokens s2 ! i)
          else 3 - 1) \<and>
     disagree_idx s' = Some d \<and>
     all_tokens s' = all_tokens toy_primed @ take (d + 1) (next_tokens s2))"
proof -
  have h: "loop_inv toy_primed" "(1::nat) \<le> 3" by code_simp+
  have w: "length (attention_mask toy_input) = length (input_ids toy_input)"
    "input_ids toy_input \<noteq> []"
    by (simp_all add: toy_input_def)
  from spec_prime_ok[OF w, of toy_draft toy_main]
  have m: "main_inv toy_main (input_ids toy_input) toy_primed"
    by (auto simp: spec_prime_toy)
  from spec_body_first_disagreement[OF h m] h m show ?thesis by blast
qed

text \<open>
  C3: in an iteration that starts from \<open>loop_inv\<close> with \<open>K \<ge> 1\<close>, \<open>seq_len\<close> grows
  by \<open>disagree_idx + 1\<close>, which is at least 1 and at most \<open>K\<close>; and on a non-empty
  prompt the run leaves the loop after at most \<open>N - prompt_len\<close> iterations.
\<close>

theorem spec_progress_and_termination:
  assumes "1 \<le> K" and "loop_inv s"
    and "length (attention_mask inp) = length (input_ids inp)" and "input_ids inp \<noteq> []"
  shows "(\<exists>s' d. spec_body K s = Inr s' \<and> disagree_idx s' = Some d \<and>
            seq_len s' = seq_len s + (d + 1) \<and> 1 \<le> d + 1 \<and> d + 1 \<le> K \<and>
            seq_len s < seq_len s') \<and>
         (\<exists>t. spec_run inp draft_model main_model K N = Inr t \<and> N \<le> seq_len t \<and>
            iterations t \<le> N - length (input_ids inp))"
proof -
  from spec_body_ok[OF assms(2,1)] obtain s1 mr d where d: "d < K"
    and b: "spec_body K s = Inr (s1\<lparr>draft_request := update_state (draft_request s1) (seq_len s + (d + 1)),
                              main_request := update_state mr (seq_len s + (d + 1)),
                              attn_mask := replicate (seq_len s + (d + 1)) 1,
                              first_token := logits mr ! d,
                              accum_draft_tokens := [],
                              next_tokens := logits mr,
                              disagree_idx := Some d,
                              seq_len := seq_len s + (d + 1),
                              all_tokens := all_tokens s @ take (d + 1) (logits mr),
                              iterations := iterations s + 1\<rparr>)" (is "_ = Inr ?s'")
    by blast
  have "disagree_idx ?s' = Some d" "seq_len ?s' = seq_len s + (d + 1)" "1 \<le> d + 1" "d + 1 \<le> K"
    "seq_len s < seq_len ?s'"
    using d by simp_all
  with b have 1: "\<exists>s' d. spec_body K s = Inr s' \<and> disagree_idx s' = Some d \<and>
            seq_len s' = seq_len s + (d + 1) \<and> 1 \<le> d + 1 \<and> d + 1 \<le> K \<and>
            seq_len s < seq_len s'"
    by blast
  from spec_run_ok[OF assms(3,4,1), of draft_model main_model N]
  have 2: "\<exists>t. spec_run inp draft_model main_model K N = Inr t \<and> N \<le> seq_len t \<and>
            iterations t \<le> N - length (input_ids inp)"
    by blast
  from 1 2 show ?thesis ..
qed

theorem spec_progress_and_termination_witness:
  "(1::nat) \<le> 3 \<and> loop_inv toy_primed \<and>
   length (attention_mask toy_input) = length (input_ids toy_input) \<and> input_ids toy_input \<noteq> [] \<and>
   (\<exists>s' d. spec_body 3 toy_primed = Inr s' \<and> disagree_idx s' = Some d \<and>
            seq_len s' = seq_len toy_primed + (d + 1) \<and> 1 \<le> d + 1 \<and> d + 1 \<le> 3 \<and>
            seq_len toy_primed < seq_len s') \<and>
   (\<exists>t. spec_run toy_input toy_draft toy_main 3 10 = Inr t \<and> 10 \<le> seq_len t \<and>
            iterations t \<le> 10 - length (input_ids toy_input))"
proof -
  have h: "(1::nat) \<le> 3" "loop_inv toy_primed"
    "length (attention_mask toy_input) = length (input_ids toy_input)" "input_ids toy_input \<noteq> []"
    by code_simp+
  from spec_progress_and_termination[OF h, of toy_draft toy_main 10] h show ?thesis by blast
qed

text \<open>
  C4: when every layer of both caches has length \<open>seq_len_old + K\<close> before the two
  \<open>update_state\<close> calls and the new \<open>seq_len\<close> is at most that, every layer of both
  caches has length \<open>seq_len\<close> after them. (Lemma \<open>spec_body_ok\<close> shows that the
  hypotheses hold in every iteration that starts from \<open>loop_inv\<close>.)
\<close>

theorem trim_phase_cache_lengths:
  assumes "caches_at (seq_len_old + K) (draft_request s)"
    and "caches_at (seq_len_old + K) (main_request s)"
    and "seq_len s \<le> seq_len_old + K"
  shows "caches_at (seq_len s) (draft_request (trim_phase s)) \<and>
         caches_at (seq_len s) (main_request (trim_phase s)) \<and>
         seq_len (trim_phase s) = seq_len s"
  using assms by (simp add: trim_phase_def caches_at_update_state)

theorem trim_phase_cache_lengths_witness:
  "caches_at (2 + 3) (draft_request toy_untrimmed) \<and>
   caches_at (2 + 3) (main_request toy_untrimmed) \<and>
   seq_len toy_untrimmed \<le> 2 + 3 \<and>
   caches_at 4 (draft_request (trim_phase toy_untrimmed)) \<and>
   caches_at 4 (main_request (trim_phase toy_untrimmed)) \<and>
   map length (query_state (main_request (trim_phase toy_untrimmed))) = [4, 4]"
proof -
  have h: "caches_at (2 + 3) (draft_request toy_untrimmed)"
    "caches_at (2 + 3) (main_request toy_untrimmed)" "seq_len toy_untrimmed \<le> 2 + 3"
    by (simp_all add: toy_untrimmed_def caches_at_def)
  have "seq_len toy_untrimmed = 4" by (simp add: toy_untrimmed_def)
  moreover have "map length (query_state (main_request (trim_phase toy_untrimmed))) = [4, 4]"
    by (simp add: toy_untrimmed_def trim_phase_def update_state_def trim_layer_def)
  ultimately show ?thesis using h trim_phase_cache_lengths[OF h] by simp
qed

text \<open>
  C5: trimming is idempotent. Applying \<open>update_state\<close> twice with the same target length
  gives the same request as applying it once, and each layer is cut to the target length when
  it is longer and left as it is otherwise.
\<close>

theorem update_state_idempotent:
  "update_state (update_state request n) n = update_state request n \<and>
   query_state (update_state request n) =
     map (\<lambda>st. if n < length st then take n st else st) (query_state request)"
  by (simp add: update_state_def trim_layer_def not_less[symmetric] cong: if_cong)

theorem update_state_idempotent_witness:
  "update_state (update_state toy_request 2) 2 = update_state toy_request 2 \<and>
   query_state (update_state toy_request 2) = [[(1, 0), (2, 1)], [(1, 0)]]"
  using update_state_idempotent[of toy_request 2] by (simp add: toy_request_def)

text \<open>
  C6: the batched pass is not given the \<open>K\<close> draft tokens. In an iteration that starts from
  \<open>loop_inv\<close> with \<open>K \<ge> 1\<close> the main model is called once, with \<open>K\<close> token ids, which
  are the last accepted token followed by the first \<open>K - 1\<close> draft tokens, with a mask of
  \<open>seq_len + K\<close> ones and with the position ids \<open>seq_len, ..., seq_len + K - 1\<close>.
\<close>

theorem verifier_pass_input:
  assumes "loop_inv s" and "1 \<le> K"
  shows "\<exists>draft s'. drafted K s = Inr draft \<and> length draft = K \<and>
     spec_body K s = Inr s' \<and>
     infer_log (main_request s') = infer_log (main_request s) @
       [(first_token s # butlast draft, replicate (seq_len s + K) 1, [seq_len s..<seq_len s + K])] \<and>
     verifier_input K s =
       Inr (first_token s # butlast draft, replicate (seq_len s + K) 1, [seq_len s..<seq_len s + K]) \<and>
     length (first_token s # butlast draft) = K"
proof -
  from spec_body_ok[OF assms] obtain s1 mr d where
    s1: "draft_phase K s = Inr s1" "length (accum_draft_tokens s1) = K"
    and inf: "infer (main_request s) (first_token s # butlast (accum_draft_tokens s1))
           (replicate (seq_len s + K) 1) [seq_len s..<seq_len s + K] = Inr mr"
    and b: "spec_body K s = Inr (s1\<lparr>draft_request := update_state (draft_request s1) (seq_len s + (d + 1)),
                              main_request := update_state mr (seq_len s + (d + 1)),
                              attn_mask := replicate (seq_len s + (d + 1)) 1,
                              first_token := logits mr ! d,
                              accum_draft_tokens := [],
                              next_tokens := logits mr,
                              disagree_idx := Some d,
                              seq_len := seq_len s + (d + 1),
                              all_tokens := all_tokens s @ take (d + 1) (logits mr),
                              iterations := iterations s + 1\<rparr>)" (is "_ = Inr ?s'")
    by blast
  let ?draft = "accum_draft_tokens s1"
  let ?call = "(first_token s # butlast ?draft, replicate (seq_len s + K) (1::nat),
                [seq_len s..<seq_len s + K])"
  have 1: "drafted K s = Inr ?draft" by (simp add: drafted_def s1(1))
  have 2: "infer_log (main_request ?s') = infer_log (main_request s) @ [?call]"
    using infer_log_Inr[OF inf] by (simp add: update_state_def)
  then have 3: "verifier_input K s = Inr ?call"
    unfolding verifier_input_def b sum.case by simp
  have 4: "length (first_token s # butlast ?draft) = K" using s1(2) assms(2) by simp
  from 1 s1(2) b 2 3 4 show ?thesis by blast
qed

theorem verifier_pass_input_witness:
  "loop_inv toy_primed \<and> (1::nat) \<le> 3 \<and>
   (\<exists>draft s'. drafted 3 toy_primed = Inr draft \<and> length draft = 3 \<and>
     spec_body 3 toy_primed = Inr s' \<and>
     infer_log (main_request s') = infer_log (main_request toy_primed) @
       [(first_token toy_primed # butlast draft, replicate (seq_len toy_primed + 3) 1,
         [seq_len toy_primed..<seq_len toy_primed + 3])] \<and>
     verifier_input 3 toy_primed =
       Inr (first_token toy_primed # butlast draft, replicate (seq_len toy_primed + 3) 1,
            [seq_len toy_primed..<seq_len toy_primed + 3]) \<and>
     length (first_token toy_primed # butlast draft) = 3)"
proof -
  have h: "loop_inv toy_primed" "(1::nat) \<le> 3" by code_simp+
  from verifier_pass_input[OF h] h show ?thesis by blast
qed

text \<open>
  In the first iteration of the example run the draft tokens are \<open>2, 2, 2\<close> and the main
  model is fed \<open>0, 2, 2\<close>.
\<close>

theorem verifier_is_not_fed_the_draft:
  "drafted 3 toy_primed = Inr [2, 2, 2] \<and>
   verifier_input 3 toy_primed = Inr ([0, 2, 2], [1, 1, 1, 1, 1], [2, 3, 4]) \<and>
   map_sum id fst (verifier_input 3 toy_primed) \<noteq> drafted 3 toy_primed"
  by code_simp

text \<open>
  C7: nothing validates \<open>K\<close>. With \<open>K = 0\<close>, on a non-empty prompt, the lines before
  the loop succeed, each model having been run once, on the prompt. A pass through the body
  of the loop then runs no draft pass and fails in the pass of the main model, which is given
  one token and no position id. So when \<open>N \<le> prompt_len\<close> the loop is not entered and the
  call returns the prompt and the main model's first token, and when \<open>prompt_len < N\<close> the
  call fails in the loop, in the first pass through its body.
\<close>

theorem speculative_sampling_K_zero:
  assumes "length (attention_mask inp) = length (input_ids inp)" and "input_ids inp \<noteq> []"
  shows "\<exists>s0 s1. spec_prime inp draft_model main_model = Inr s0 \<and>
     infer_log (draft_request s0) =
       [(input_ids inp, attention_mask inp, [0..<length (input_ids inp)])] \<and>
     infer_log (main_request s0) =
       [(input_ids inp, attention_mask inp, [0..<length (input_ids inp)])] \<and>
     iterations s0 = 0 \<and>
     all_tokens s0 = input_ids inp @
       [greedy main_model (cache_of main_model (input_ids inp) [0..<length (input_ids inp)])] \<and>
     draft_phase 0 s0 = Inr s1 \<and> draft_request s1 = draft_request s0 \<and>
     accum_draft_tokens s1 = [] \<and>
     verify_phase 0 s1 = Inl InferenceError \<and>
     spec_body 0 s0 = Inl InferenceError \<and>
     speculative_sampling_with_pkv inp draft_model main_model 0 N =
       (if length (input_ids inp) < N then Inl (In_loop, InferenceError)
        else Inr (all_tokens s0))"
proof -
  let ?L = "length (input_ids inp)"
  from spec_prime_ok[OF assms, of draft_model main_model] obtain s0 where s0:
    "spec_prime inp draft_model main_model = Inr s0" "main_inv main_model (input_ids inp) s0"
    "seq_len s0 = ?L" "all_tokens s0 = input_ids inp @ [first_token s0]"
    "accum_draft_tokens s0 = []" "iterations s0 = 0"
    "infer_log (draft_request s0) = [(input_ids inp, attention_mask inp, [0..<?L])]"
    "infer_log (main_request s0) = [(input_ids inp, attention_mask inp, [0..<?L])]"
    by blast
  have "greedy_from main_model ?L (all_tokens s0)"
    using s0(2) by (simp add: main_inv_def)
  from greedy_fromD[OF this, of ?L]
  have "first_token s0 = greedy main_model (cache_of main_model (input_ids inp) [0..<?L])"
    by (simp add: s0(4))
  then have all: "all_tokens s0 = input_ids inp @
       [greedy main_model (cache_of main_model (input_ids inp) [0..<?L])]"
    using s0(4) by simp
  let ?s1 = "s0\<lparr>next_token := first_token s0\<rparr>"
  have d: "draft_phase 0 s0 = Inr ?s1" "draft_request ?s1 = draft_request s0"
    "accum_draft_tokens ?s1 = []"
    by (simp_all add: draft_phase_def s0(5))
  have v: "verify_phase 0 ?s1 = Inl InferenceError"
    by (simp add: verify_phase_def infer_def)
  have r: "speculative_sampling_with_pkv inp draft_model main_model 0 N =
       (if ?L < N then Inl (In_loop, InferenceError) else Inr (all_tokens s0))"
    by (simp add: speculative_sampling_with_pkv_def spec_run_def s0(1,3,5) spec_loop_zero)
  from s0(1,7,8,6) all d v spec_body_zero[of s0] r show ?thesis by blast
qed

theorem speculative_sampling_K_zero_witness:
  "length (attention_mask toy_input) = length (input_ids toy_input) \<and>
   input_ids toy_input \<noteq> [] \<and>
   (\<exists>s0 s1. spec_prime toy_input toy_draft toy_main = Inr s0 \<and>
     infer_log (draft_request s0) =
       [(input_ids toy_input, attention_mask toy_input, [0..<length (input_ids toy_input)])] \<and>
     infer_log (main_request s0) =
       [(input_ids toy_input, attention_mask toy_input, [0..<length (input_ids toy_input)])] \<and>
     iterations s0 = 0 \<and>
     all_tokens s0 = input_ids toy_input @
       [greedy toy_main (cache_of toy_main (input_ids toy_input)
          [0..<length (input_ids toy_input)])] \<and>
     draft_phase 0 s0 = Inr s1 \<and> draft_request s1 = draft_request s0 \<and>
     accum_draft_tokens s1 = [] \<and>
     verify_phase 0 s1 = Inl InferenceError \<and>
     spec_body 0 s0 = Inl InferenceError \<and>
     speculative_sampling_with_pkv toy_input toy_draft toy_main 0 3 =
       (if length (input_ids toy_input) < 3 then Inl (In_loop, InferenceError)
        else Inr (all_tokens s0))) \<and>
   speculative_sampling_with_pkv toy_input toy_draft toy_main 0 3 = Inl (In_loop, InferenceError)"
proof -
  have h: "length (attention_mask toy_input) = length (input_ids toy_input)"
    "input_ids toy_input \<noteq> []"
    by (simp_all add: toy_input_def)
  have l: "length (input_ids toy_input) < 3" by (simp add: toy_input_def)
  from speculative_sampling_K_zero[OF h, of toy_draft toy_main 3]
  have e: "\<exists>s0 s1. spec_prime toy_input toy_draft toy_main = Inr s0 \<and>
     infer_log (draft_request s0) =
       [(input_ids toy_input, attention_mask toy_input, [0..<length (input_ids toy_input)])] \<and>
     infer_log (main_request s0) =
       [(input_ids toy_input, attention_mask toy_input, [0..<length (input_ids toy_input)])] \<and>
     iterations s0 = 0 \<and>
     all_tokens s0 = input_ids toy_input @
       [greedy toy_main (cache_of toy_main (input_ids toy_input)
          [0..<length (input_ids toy_input)])] \<and>
     draft_phase 0 s0 = Inr s1 \<and> draft_request s1 = draft_request s0 \<and>
     accum_draft_tokens s1 = [] \<and>
     verify_phase 0 s1 = Inl InferenceError \<and>
     spec_body 0 s0 = Inl InferenceError \<and>
     speculative_sampling_with_pkv toy_input toy_draft toy_main 0 3 =
       (if length (input_ids toy_input) < 3 then Inl (In_loop, InferenceError)
        else Inr (all_tokens s0))" .
  then have "speculative_sampling_with_pkv toy_input toy_draft toy_main 0 3 =
      Inl (In_loop, InferenceError)"
    using l by auto
  with h e show ?thesis by blast
qed

text \<open>A call with \<open>K = 0\<close> that returns.\<close>

theorem K_zero_is_not_rejected:
  "speculative_sampling_with_pkv toy_input toy_draft toy_main 0 2 = Inr [1, 2, 0]"
  by code_simp

text \<open>
  C8: the naive routine makes \<open>N - prompt_len\<close> passes in its loop and one more over the
  prompt before it, so \<open>N - prompt_len + 1\<close> calls of the main model and not
  \<open>N - prompt_len\<close>. The speculative routine makes one pass of the main model over the prompt
  and one batched pass per iteration, at most \<open>N - prompt_len\<close> of them, hence at most
  \<open>N\<close> calls in all.
\<close>

theorem forward_pass_counts:
  assumes "1 \<le> K" and "length (attention_mask inp) = length (input_ids inp)"
    and "input_ids inp \<noteq> []" and "length (input_ids inp) < N"
  shows "ar_forward_passes inp main_model N = Inr (1 + (N - length (input_ids inp))) \<and>
     (\<exists>s. spec_run inp draft_model main_model K N = Inr s \<and>
        main_forward_passes inp draft_model main_model K N = Inr (1 + iterations s) \<and>
        iterations s \<le> N - length (input_ids inp) \<and> 1 + iterations s \<le> N)"
proof -
  let ?L = "length (input_ids inp)"
  from ar_run_ok[OF assms(2,3), of main_model N] obtain a where
    a: "ar_run inp main_model N = Inr a" "length (infer_log (ar_request a)) = 1 + (N - ?L)"
    by blast
  then have 1: "ar_forward_passes inp main_model N = Inr (1 + (N - ?L))"
    by (simp add: ar_forward_passes_def forward_passes_def)
  from spec_run_ok[OF assms(2,3,1), of draft_model main_model N] obtain s where
    s: "spec_run inp draft_model main_model K N = Inr s" "iterations s \<le> N - ?L"
      "length (infer_log (main_request s)) = 1 + iterations s"
    by blast
  have "main_forward_passes inp draft_model main_model K N = Inr (1 + iterations s)"
    using s(1,3) by (simp add: main_forward_passes_def forward_passes_def)
  moreover have "0 < ?L" using assms(3) by simp
  then have "1 + iterations s \<le> N" using s(2) assms(4) by linarith
  ultimately show ?thesis using 1 s(1,2) by blast
qed

theorem forward_pass_counts_witness:
  "(1::nat) \<le> 3 \<and> length (attention_mask toy_input) = length (input_ids toy_input) \<and>
   input_ids toy_input \<noteq> [] \<and> length (input_ids toy_input) < 10 \<and>
   ar_forward_passes toy_input toy_main 10 = Inr (1 + (10 - length (input_ids toy_input))) \<and>
   (\<exists>s. spec_run toy_input toy_draft toy_main 3 10 = Inr s \<and>
        main_forward_passes toy_input toy_draft toy_main 3 10 = Inr (1 + iterations s) \<and>
        iterations s \<le> 10 - length (input_ids toy_input) \<and> 1 + iterations s \<le> 10)"
proof -
  have h: "(1::nat) \<le> 3" "length (attention_mask toy_input) = length (input_ids toy_input)"
    "input_ids toy_input \<noteq> []" "length (input_ids toy_input) < 10"
    by (simp_all add: toy_input_def)
  from forward_pass_counts[OF h, of toy_main toy_draft] h show ?thesis by blast
qed

text \<open>
  On the example prompt of two tokens and \<open>N = 3\<close> the naive routine calls the model twice.
\<close>

theorem naive_counts_the_priming_pass:
  "length (input_ids toy_input) < 3 \<and> ar_forward_passes toy_input toy_main 3 = Inr 2 \<and>
   ar_forward_passes toy_input toy_main 3 \<noteq> Inr (3 - length (input_ids toy_input))"
  by code_simp

text \<open>
  C9: on a non-empty prompt shorter than \<open>N\<close> and with \<open>K \<ge> 1\<close>, the speculative result
  has \<open>seq_len + 1\<close> tokens for the final \<open>seq_len\<close>, which lies between \<open>N\<close> and
  \<open>N + K - 1\<close>; the naive result has \<open>N + 1\<close> tokens; and there is a run in which the
  speculative result is the longer one.
\<close>

theorem speculative_result_length:
  assumes "1 \<le> K" and "length (attention_mask inp) = length (input_ids inp)"
    and "input_ids inp \<noteq> []" and "length (input_ids inp) < N"
  shows "(\<exists>s ys. spec_run inp draft_model main_model K N = Inr s \<and>
       speculative_sampling_with_pkv inp draft_model main_model K N = Inr (all_tokens s) \<and>
       length (all_tokens s) = seq_len s + 1 \<and> N \<le> seq_len s \<and> seq_len s \<le> N + K - 1 \<and>
       autoregressive_sampling_with_pkv inp main_model N = Inr ys \<and> length ys = N + 1) \<and>
     (\<exists>xs ys. speculative_sampling_with_pkv toy_input toy_draft toy_main 3 3 = Inr xs \<and>
       autoregressive_sampling_with_pkv toy_input toy_main 3 = Inr ys \<and>
       length ys < length xs)"
proof -
  let ?L = "length (input_ids inp)"
  from spec_run_ok[OF assms(2,3,1), of draft_model main_model N] assms(4) obtain s where
    s: "spec_run inp draft_model main_model K N = Inr s" "loop_inv s"
      "N \<le> seq_len s" "seq_len s \<le> N + K - 1"
    by blast
  have l: "length (all_tokens s) = seq_len s + 1" "accum_draft_tokens s = []"
    using s(2) by (simp_all add: loop_inv_def)
  have x: "speculative_sampling_with_pkv inp draft_model main_model K N = Inr (all_tokens s)"
    by (simp add: speculative_sampling_with_pkv_def s(1) l(2))
  from ar_run_ok[OF assms(2,3), of main_model N] obtain a where
    a: "ar_run inp main_model N = Inr a" "ar_inv main_model (input_ids inp) a"
      "ar_seq_len a = max N ?L"
    by blast
  have "length (ar_all_tokens a) = N + 1"
    using a(2,3) assms(4) by (simp add: ar_inv_def)
  moreover have "autoregressive_sampling_with_pkv inp main_model N = Inr (ar_all_tokens a)"
    by (simp add: autoregressive_sampling_with_pkv_def a(1))
  ultimately have 1: "\<exists>s ys. spec_run inp draft_model main_model K N = Inr s \<and>
       speculative_sampling_with_pkv inp draft_model main_model K N = Inr (all_tokens s) \<and>
       length (all_tokens s) = seq_len s + 1 \<and> N \<le> seq_len s \<and> seq_len s \<le> N + K - 1 \<and>
       autoregressive_sampling_with_pkv inp main_model N = Inr ys \<and> length ys = N + 1"
    using s(1,3,4) l(1) x by blast
  have 2: "\<exists>xs ys. speculative_sampling_with_pkv toy_input toy_draft toy_main 3 3 = Inr xs \<and>
       autoregressive_sampling_with_pkv toy_input toy_main 3 = Inr ys \<and>
       length ys < length xs"
    by (simp add: toy_spec_3_3 toy_ar_3)
  from 1 2 show ?thesis ..
qed

theorem speculative_result_length_witness:
  "(1::nat) \<le> 3 \<and> length (attention_mask toy_input) = length (input_ids toy_input) \<and>
   input_ids toy_input \<noteq> [] \<and> length (input_ids toy_input) < 3 \<and>
   (\<exists>s ys. spec_run toy_input toy_draft toy_main 3 3 = Inr s \<and>
       speculative_sampling_with_pkv toy_input toy_draft toy_main 3 3 = Inr (all_tokens s) \<and>
       length (all_tokens s) = seq_len s + 1 \<and> 3 \<le> seq_len s \<and> seq_len s \<le> 3 + 3 - 1 \<and>
       autoregressive_sampling_with_pkv toy_input toy_main 3 = Inr ys \<and> length ys = 3 + 1)"
proof -
  have h: "(1::nat) \<le> 3" "length (attention_mask toy_input) = length (input_ids toy_input)"
    "input_ids toy_input \<noteq> []" "length (input_ids toy_input) < 3"
    by (simp_all add: toy_input_def)
  from speculative_result_length[OF h, of toy_draft toy_main] h show ?thesis by blast
qed

text \<open>
  C10: on a non-empty prompt the run returns when \<open>K \<ge> 1\<close> or \<open>N \<le> prompt_len\<close>;
  whenever it returns, \<open>accum_draft_tokens\<close> is empty at the final \<^verbatim>\<open>extend\<close>, so
  the result is \<open>all_tokens\<close>, which starts with the prompt and in which every later token
  is the main model's greedy choice after the tokens before it. No token of the draft
  model is in it.
\<close>

theorem only_verifier_tokens:
  assumes "length (attention_mask inp) = length (input_ids inp)" and "input_ids inp \<noteq> []"
    and "1 \<le> K \<or> N \<le> length (input_ids inp)"
  shows "\<exists>s. spec_run inp draft_model main_model K N = Inr s \<and>
     accum_draft_tokens s = [] \<and>
     speculative_sampling_with_pkv inp draft_model main_model K N = Inr (all_tokens s) \<and>
     take (length (input_ids inp)) (all_tokens s) = input_ids inp \<and>
     greedy_from main_model (length (input_ids inp)) (all_tokens s)"
proof -
  let ?L = "length (input_ids inp)"
  have "\<exists>s. spec_run inp draft_model main_model K N = Inr s \<and> loop_inv s \<and>
     main_inv main_model (input_ids inp) s"
  proof (cases "1 \<le> K")
    case True
    from spec_run_ok[OF assms(1,2) True, of draft_model main_model N] show ?thesis by blast
  next
    case False
    then have K: "K = 0" and N: "N \<le> ?L" using assms(3) by simp_all
    from spec_prime_ok[OF assms(1,2), of draft_model main_model] obtain s0 where s0:
      "spec_prime inp draft_model main_model = Inr s0" "loop_inv s0"
      "main_inv main_model (input_ids inp) s0" "seq_len s0 = ?L"
      by blast
    have "spec_run inp draft_model main_model K N = Inr s0"
      using N by (simp add: spec_run_def s0(1,4) K spec_loop_zero)
    then show ?thesis using s0(2,3) by blast
  qed
  then obtain s where s: "spec_run inp draft_model main_model K N = Inr s" "loop_inv s"
    "main_inv main_model (input_ids inp) s"
    by blast
  have e: "accum_draft_tokens s = []" using s(2) by (simp add: loop_inv_def)
  have "speculative_sampling_with_pkv inp draft_model main_model K N = Inr (all_tokens s)"
    by (simp add: speculative_sampling_with_pkv_def s(1) e)
  moreover have "take ?L (all_tokens s) = input_ids inp" "greedy_from main_model ?L (all_tokens s)"
    using s(3) by (simp_all add: main_inv_def)
  ultimately show ?thesis using s(1) e by blast
qed

theorem only_verifier_tokens_witness:
  "length (attention_mask toy_input) = length (input_ids toy_input) \<and>
   input_ids toy_input \<noteq> [] \<and> (1::nat) \<le> 3 \<and>
   (\<exists>s. spec_run toy_input toy_draft toy_main 3 10 = Inr s \<and>
     accum_draft_tokens s = [] \<and>
     speculative_sampling_with_pkv toy_input toy_draft toy_main 3 10 = Inr (all_tokens s) \<and>
     take (length (input_ids toy_input)) (all_tokens s) = input_ids toy_input \<and>
     greedy_from toy_main (length (input_ids toy_input)) (all_tokens s))"
proof -
  have h: "length (attention_mask toy_input) = length (input_ids toy_input)"
    "input_ids toy_input \<noteq> []" "(1::nat) \<le> 3 \<or> 10 \<le> length (input_ids toy_input)"
    by (simp_all add: toy_input_def)
  from only_verifier_tokens[OF h, of toy_draft toy_main] h(1,2) show ?thesis by simp
qed

end
